theory Spec2Isabelle
  imports Main "HOL-Library.Word"
begin

section \<open>JavaScript values in the usage table\<close>

text \<open>
  \<open>rateLimits.used\<close> is a plain JavaScript object whose own properties hold numbers. The
  numbers of the configuration are counts and limits: doubles whose value is an integer,
  written \<open>Num v\<close> (beyond \<open>2^53\<close> in magnitude only the integers that are doubles occur),
  and \<open>NaN\<close>, which arithmetic on a value that is not a number produces.
\<close>

datatype js_number = Num int | NaN

text \<open>
  What a property read \<open>rateLimits.used[key]\<close> yields: \<open>undefined\<close>, the number of an own
  property, or a member inherited from \<open>Object.prototype\<close> (a function, or for
  \<open>__proto__\<close> the prototype object).
\<close>

datatype js_value = Undefined | Number js_number | Inherited

text \<open>The property names every plain object inherits from \<open>Object.prototype\<close>.\<close>

definition objectPrototypeMembers :: "string list" where
  "objectPrototypeMembers =
     [''constructor'', ''hasOwnProperty'', ''isPrototypeOf'', ''propertyIsEnumerable'',
      ''toLocaleString'', ''toString'', ''valueOf'', ''__defineGetter__'',
      ''__defineSetter__'', ''__lookupGetter__'', ''__lookupSetter__'', ''__proto__'']"

text \<open>
  \<open>v + 1\<close> on an integer-valued double: exact from \<open>-2^53\<close> up to the result \<open>2^53\<close>;
  between \<open>2^53\<close> and \<open>2^54\<close> in magnitude the doubles are the even integers and the sum
  lies half way between two of them, so it is rounded to the one whose significand is even;
  from \<open>2^54\<close> on the sum is rounded back to \<open>v\<close>.
\<close>

definition js_succ :: "int \<Rightarrow> int" where
  "js_succ v =
     (if - (2 ^ 53) \<le> v \<and> v < 2 ^ 53 then v + 1
      else if \<bar>v\<bar> < 2 ^ 54 \<and> v mod 4 = 2 then v + 2
      else v)"

text \<open>
  The new value of \<open>x++\<close>: the operand is converted to a number first, and a function, an
  object or \<open>undefined\<close> converts to \<open>NaN\<close>.
\<close>

fun increment :: "js_value \<Rightarrow> js_number" where
  "increment (Number (Num v)) = Num (js_succ v)"
| "increment (Number NaN) = NaN"
| "increment Inherited = NaN"
| "increment Undefined = NaN"

text \<open>The values for which \<open>!x\<close> holds.\<close>

fun falsy :: "js_value \<Rightarrow> bool" where
  "falsy Undefined = True"
| "falsy (Number (Num v)) = (v = 0)"
| "falsy (Number NaN) = True"
| "falsy Inherited = False"

text \<open>
  The comparison \<open>x < m\<close> against a limit: a function or an object converts to \<open>NaN\<close>, and
  every comparison with \<open>NaN\<close> is false.
\<close>

fun js_less :: "js_value \<Rightarrow> int \<Rightarrow> bool" where
  "js_less (Number (Num v)) m = (v < m)"
| "js_less (Number NaN) m = False"
| "js_less Inherited m = False"
| "js_less Undefined m = False"

section \<open>The API-key configuration (apiKeyManager.ts)\<close>

text \<open>
  The manager keeps one \<open>ApiKeyConfig\<close> object in memory (\<open>this.config\<close>), loaded once by
  \<open>loadConfig\<close> and written back in full by \<open>saveConfig\<close> after every mutation. The model
  is that object: \<open>config.tinypng.keys\<close>, \<open>config.tinypng.currentIndex\<close>,
  \<open>config.tinypng.rateLimits.monthly\<close> and the own properties of
  \<open>config.tinypng.rateLimits.used\<close>. Every operation takes the configuration and returns the
  updated one. Reading and writing the JSON file are taken to succeed, except where the
  outcome of the write is made explicit (\<open>saveConfig\<close> below); \<open>saveConfig\<close> serialises the
  object and does not change it. \<open>ensureInitialized\<close> copies the keys into the storage's
  table of API keys, which nothing modelled here reads, and leaves the configuration
  alone. The cursor is a natural number: the code only ever stores \<open>0\<close> or a remainder
  \<open>(currentIndex + i) % keys.length\<close> in it. The monthly limit is an integer that the code
  only reads and compares.
\<close>

record ApiKeyConfig =
  keys :: "string list"
  currentIndex :: nat
  monthly :: int
  used :: "string \<rightharpoonup> js_number"

text \<open>
  The read \<open>rateLimits.used[key]\<close>: the own property if there is one, else what the
  prototype chain gives.
\<close>

definition getUsed :: "ApiKeyConfig \<Rightarrow> string \<Rightarrow> js_value" where
  "getUsed c key =
     (case used c key of
        Some n \<Rightarrow> Number n
      | None \<Rightarrow> if key \<in> set objectPrototypeMembers then Inherited else Undefined)"

text \<open>
  The assignment \<open>rateLimits.used[key] = n\<close> of a number: it writes the own property,
  creating it if need be; only for \<open>__proto__\<close> without an own property does it reach the
  inherited setter, which ignores a value that is not an object.
\<close>

definition setUsed :: "string \<Rightarrow> js_number \<Rightarrow> ApiKeyConfig \<Rightarrow> ApiKeyConfig" where
  "setUsed key n c =
     (if key = ''__proto__'' \<and> used c key = None then c
      else c\<lparr>used := (used c)(key \<mapsto> n)\<rparr>)"

text \<open>The expression \<open>rateLimits.used[key] || 0\<close>.\<close>

definition usedOrZero :: "ApiKeyConfig \<Rightarrow> string \<Rightarrow> js_value" where
  "usedOrZero c key = (if falsy (getUsed c key) then Number (Num 0) else getUsed c key)"

text \<open>The test \<open>used < rateLimits.monthly\<close> of the loop, for one key.\<close>

definition belowLimit :: "ApiKeyConfig \<Rightarrow> string \<Rightarrow> bool" where
  "belowLimit c key = js_less (usedOrZero c key) (monthly c)"

text \<open>
  The loop of \<open>getNextAvailableKey\<close>, entered at iteration \<open>i\<close>. The destructured
  \<open>keys\<close>, \<open>currentIndex\<close> and \<open>rateLimits\<close> are those of the configuration at entry;
  the only write happens on the returning branch.
\<close>

function scanKeys :: "ApiKeyConfig \<Rightarrow> nat \<Rightarrow> string option \<times> ApiKeyConfig" where
  "scanKeys c i =
     (if i < length (keys c) then
        (let keyIndex = (currentIndex c + i) mod length (keys c);
             key = keys c ! keyIndex;
             u = usedOrZero c key
         in if js_less u (monthly c) then (Some key, c\<lparr>currentIndex := keyIndex\<rparr>)
            else scanKeys c (i + 1))
      else (None, c))"
  by pat_completeness auto
termination
  by (relation "measure (\<lambda>(c, i). length (keys c) - i)") auto

definition getNextAvailableKey :: "ApiKeyConfig \<Rightarrow> string option \<times> ApiKeyConfig" where
  "getNextAvailableKey c = scanKeys c 0"

text \<open>
  \<open>recordUsage\<close>: if the entry read is falsy it is first set to zero; then the entry is
  incremented in place.
\<close>

definition recordUsage :: "string \<Rightarrow> ApiKeyConfig \<Rightarrow> ApiKeyConfig" where
  "recordUsage apiKey c =
     (let c1 = (if falsy (getUsed c apiKey) then setUsed apiKey (Num 0) c else c)
      in setUsed apiKey (increment (getUsed c1 apiKey)) c1)"

text \<open>A thrown JavaScript \<open>Error\<close> with its message.\<close>

datatype js_error = Error string

fun message :: "js_error \<Rightarrow> string" where
  "message (Error m) = m"



definition addApiKey :: "string \<Rightarrow> ApiKeyConfig \<Rightarrow> ApiKeyConfig" where
  "addApiKey apiKey c =
     (if apiKey \<notin> set (keys c)
      then setUsed apiKey (Num 0) (c\<lparr>keys := keys c @ [apiKey]\<rparr>)
      else c)"

definition removeApiKey :: "string \<Rightarrow> ApiKeyConfig \<Rightarrow> ApiKeyConfig" where
  "removeApiKey apiKey c =
     (let keys' = filter (\<lambda>key. key \<noteq> apiKey) (keys c);
          used' = (used c)(apiKey := None)
      in c\<lparr>keys := keys',
           currentIndex := (if currentIndex c \<ge> length keys' then 0 else currentIndex c),
           used := used'\<rparr>)"

record KeyUsage =
  key :: string
  usedCount :: js_value
  limit :: int

definition getKeyUsage :: "ApiKeyConfig \<Rightarrow> KeyUsage list" where
  "getKeyUsage c =
     map (\<lambda>k. \<lparr>key = k, usedCount = usedOrZero c k, limit = monthly c\<rparr>) (keys c)"

definition resetMonthlyUsage :: "ApiKeyConfig \<Rightarrow> ApiKeyConfig" where
  "resetMonthlyUsage c = c\<lparr>used := Map.empty\<rparr>"


text \<open>
  Sequences of calls to the manager, as a caller may issue them one after the other
  (\<open>selectCredential\<close> is \<open>getNextAvailableKey\<close>, \<open>addCredential\<close> is \<open>addApiKey\<close>,
  \<open>removeCredential\<close> is \<open>removeApiKey\<close>).
\<close>

datatype ledger_call =
    SelectCredential
  | RecordUsage string
  | AddCredential string
  | RemoveCredential string

fun ledger_step :: "ledger_call \<Rightarrow> ApiKeyConfig \<Rightarrow> ApiKeyConfig" where
  "ledger_step SelectCredential c = snd (getNextAvailableKey c)"
| "ledger_step (RecordUsage t) c = recordUsage t c"
| "ledger_step (AddCredential t) c = addApiKey t c"
| "ledger_step (RemoveCredential t) c = removeApiKey t c"

fun ledger_run :: "ledger_call list \<Rightarrow> ApiKeyConfig \<Rightarrow> ApiKeyConfig" where
  "ledger_run [] c = c"
| "ledger_run (x # xs) c = ledger_run xs (ledger_step x c)"

text \<open>\<open>n\<close> consecutive calls of \<open>getNextAvailableKey\<close>, with the values they return.\<close>

fun selectTimes :: "nat \<Rightarrow> ApiKeyConfig \<Rightarrow> string option list \<times> ApiKeyConfig" where
  "selectTimes 0 c = ([], c)"
| "selectTimes (Suc n) c =
     (case getNextAvailableKey c of (r, c') \<Rightarrow>
        (case selectTimes n c' of (rs, c'') \<Rightarrow> (r # rs, c'')))"

text \<open>The cursor is an index into the key sequence, or the sequence is empty.\<close>

definition cursor_valid :: "ApiKeyConfig \<Rightarrow> bool" where
  "cursor_valid c = (keys c = [] \<or> currentIndex c < length (keys c))"

text \<open>The same, with the cursor at the start when the sequence is empty.\<close>

definition cursor_in_range :: "ApiKeyConfig \<Rightarrow> bool" where
  "cursor_in_range c = (currentIndex c = 0 \<or> currentIndex c < length (keys c))"

section \<open>The provider client (tinify) as the service sees it\<close>

text \<open>
  The tinify library is an external collaborator. What the service observes of it is
  whether \<open>tinify.validate()\<close> and \<open>source.toBuffer()\<close> resolve or throw, and with which
  error class; the classes tested by \<open>instanceof\<close> are unrelated subclasses of the
  library's error, and \<open>OtherError\<close> stands for any other thrown value. A provider answers
  each call as a function of the calls made so far, of the key set in \<open>tinify.key\<close> and
  of the payload.
\<close>

type_synonym Buffer = "8 word list"

datatype tinify_error =
    AccountError string
  | ClientError string
  | ServerError string
  | ConnectionError string
  | OtherError string

datatype tinify_call = Validate string | ToBuffer string Buffer

record tinify =
  validate :: "tinify_call list \<Rightarrow> string \<Rightarrow> tinify_error option"
  toBuffer :: "tinify_call list \<Rightarrow> string \<Rightarrow> Buffer \<Rightarrow> tinify_error + Buffer"

section \<open>The in-memory storage of compression records (storage.ts)\<close>

datatype status = Pending | Processing | Completed | Failed

record Compression =
  c_filename :: string
  c_originalSize :: nat
  c_compressedSize :: "nat option"
  c_status :: status
  c_errorMessage :: "string option"

text \<open>
  The process state: the manager's configuration, the provider calls made so far (oldest
  first) and the storage's map of compression records. Record identifiers are
  \<open>randomUUID()\<close> in the source; the model draws them from a counter.
\<close>

record server =
  config :: ApiKeyConfig
  calls :: "tinify_call list"
  compressions :: "nat \<rightharpoonup> Compression"
  nextId :: nat

definition createCompression :: "string \<Rightarrow> nat \<Rightarrow> server \<Rightarrow> nat \<times> server" where
  "createCompression name sz s =
     (let cid = nextId s;
          compression = \<lparr>c_filename = name, c_originalSize = sz, c_compressedSize = None,
                         c_status = Pending, c_errorMessage = None\<rparr>
      in (cid, s\<lparr>compressions := (compressions s)(cid \<mapsto> compression), nextId := cid + 1\<rparr>))"

definition updateCompression :: "nat \<Rightarrow> (Compression \<Rightarrow> Compression) \<Rightarrow> server \<Rightarrow> server" where
  "updateCompression cid updates s =
     (case compressions s cid of
        None \<Rightarrow> s
      | Some compression \<Rightarrow> s\<lparr>compressions := (compressions s)(cid \<mapsto> updates compression)\<rparr>)"

section \<open>The compression service (tinypng.ts)\<close>

record CompressResult =
  compressedBuffer :: Buffer
  originalSize :: nat
  compressedSize :: nat

text \<open>The \<open>catch\<close> block of \<open>compressImage\<close>: the \<open>instanceof\<close> chain, in its order.\<close>

fun rethrow :: "tinify_error \<Rightarrow> js_error" where
  "rethrow (AccountError m) = Error (''TinyPNG account error: '' @ m)"
| "rethrow (ClientError m) = Error (''TinyPNG client error: '' @ m)"
| "rethrow (ServerError m) = Error (''TinyPNG server error: '' @ m)"
| "rethrow (ConnectionError m) = Error (''TinyPNG connection error: '' @ m)"
| "rethrow (OtherError m) = Error (''TinyPNG compression failed: '' @ m)"

definition noKeysError :: js_error where
  "noKeysError = Error ''No available API keys. All keys have reached their monthly limit.''"

text \<open>
  \<open>compressImage\<close>. The test \<open>!apiKey\<close> holds for \<open>null\<close> and for the empty string. The
  savings percentage it logs is a floating-point value that is not returned, and is left
  out.
\<close>

definition compressImage ::
  "tinify \<Rightarrow> Buffer \<Rightarrow> server \<Rightarrow> (js_error + CompressResult) \<times> server" where
  "compressImage tp buffer s =
     (case getNextAvailableKey (config s) of (apiKey, cfg) \<Rightarrow>
        let s1 = s\<lparr>config := cfg\<rparr> in
        (case apiKey of
           None \<Rightarrow> (Inl noKeysError, s1)
         | Some k \<Rightarrow>
             if k = [] then (Inl noKeysError, s1)
             else
               let s2 = s1\<lparr>calls := calls s1 @ [Validate k]\<rparr> in
               (case validate tp (calls s1) k of
                  Some e \<Rightarrow> (Inl (rethrow e), s2)
                | None \<Rightarrow>
                    let s3 = s2\<lparr>calls := calls s2 @ [ToBuffer k buffer]\<rparr> in
                    (case toBuffer tp (calls s2) k buffer of
                       Inl e \<Rightarrow> (Inl (rethrow e), s3)
                     | Inr compressedData \<Rightarrow>
                         (Inr \<lparr>compressedBuffer = compressedData,
                               originalSize = length buffer,
                               compressedSize = length compressedData\<rparr>,
                          s3\<lparr>config := recordUsage k (config s3)\<rparr>)))))"

section \<open>The upload route (routes.ts, POST /api/upload)\<close>

record upload_file =
  originalname :: string
  f_size :: nat
  buffer :: "Buffer option"

record upload_result =
  r_id :: "nat option"
  r_filename :: string
  r_originalSize :: "nat option"
  r_compressedSize :: "nat option"
  r_status :: status
  r_error :: "string option"

text \<open>The body of the \<open>for (const file of files)\<close> loop, for one file.\<close>

definition processFile :: "tinify \<Rightarrow> upload_file \<Rightarrow> server \<Rightarrow> upload_result \<times> server" where
  "processFile tp file s =
     (case buffer file of
        None \<Rightarrow>
          (\<lparr>r_id = None, r_filename = originalname file, r_originalSize = None,
            r_compressedSize = None, r_status = Failed,
            r_error = Some ''File buffer is missing''\<rparr>, s)
      | Some buf \<Rightarrow>
          (case createCompression (originalname file) (f_size file) s of (cid, s1) \<Rightarrow>
             let s2 = updateCompression cid (\<lambda>r. r\<lparr>c_status := Processing\<rparr>) s1 in
             (case compressImage tp buf s2 of
                (Inr result, s3) \<Rightarrow>
                  (\<lparr>r_id = Some cid, r_filename = originalname file,
                    r_originalSize = Some (originalSize result),
                    r_compressedSize = Some (compressedSize result),
                    r_status = Completed, r_error = None\<rparr>,
                   updateCompression cid
                     (\<lambda>r. r\<lparr>c_status := Completed,
                             c_compressedSize := Some (compressedSize result)\<rparr>) s3)
              | (Inl err, s3) \<Rightarrow>
                  (\<lparr>r_id = Some cid, r_filename = originalname file,
                    r_originalSize = Some (f_size file), r_compressedSize = None,
                    r_status = Failed, r_error = Some (message err)\<rparr>,
                   updateCompression cid
                     (\<lambda>r. r\<lparr>c_status := Failed, c_errorMessage := Some (message err)\<rparr>)
                     s3))))"

fun processFiles ::
  "tinify \<Rightarrow> upload_file list \<Rightarrow> upload_result list \<times> server \<Rightarrow> upload_result list \<times> server" where
  "processFiles tp [] (results, s) = (results, s)"
| "processFiles tp (file # files) (results, s) =
     (case processFile tp file s of (r, s') \<Rightarrow> processFiles tp files (results @ [r], s'))"

datatype http_response = Json "upload_result list" | Status400 string

definition uploadHandler ::
  "tinify \<Rightarrow> upload_file list \<Rightarrow> server \<Rightarrow> http_response \<times> server" where
  "uploadHandler tp files s =
     (if files = [] then (Status400 ''No files uploaded'', s)
      else (case processFiles tp files ([], s) of (results, s') \<Rightarrow> (Json results, s')))"

text \<open>The calls of a sequence that record a usage.\<close>

definition recordCount :: "ledger_call list \<Rightarrow> nat" where
  "recordCount ops = length (filter (\<lambda>op. op \<noteq> SelectCredential) ops)"

text \<open>The number of entries of a response that report a completed compression.\<close>

definition completedCount :: "upload_result list \<Rightarrow> nat" where
  "completedCount results = length (filter (\<lambda>r. r_status r = Completed) results)"


section \<open>The scan of the key sequence\<close>

declare scanKeys.simps [simp del]

lemma scanKeys_unfold:
  "scanKeys c i =
     (if i < length (keys c) then
        (if belowLimit c (keys c ! ((currentIndex c + i) mod length (keys c)))
         then (Some (keys c ! ((currentIndex c + i) mod length (keys c))),
               c\<lparr>currentIndex := (currentIndex c + i) mod length (keys c)\<rparr>)
         else scanKeys c (i + 1))
      else (None, c))"
  by (simp add: scanKeys.simps [of c i] Let_def belowLimit_def)

lemma scanKeys_Some:
  "scanKeys c i = (Some k, c') \<Longrightarrow>
     \<exists>j. i \<le> j \<and> j < length (keys c) \<and>
         c' = c\<lparr>currentIndex := (currentIndex c + j) mod length (keys c)\<rparr> \<and>
         k = keys c ! ((currentIndex c + j) mod length (keys c)) \<and>
         belowLimit c k \<and>
         (\<forall>i'. i \<le> i' \<and> i' < j \<longrightarrow>
            \<not> belowLimit c (keys c ! ((currentIndex c + i') mod length (keys c))))"
proof (induction c i rule: scanKeys.induct)
  case (1 c i)
  show ?case
  proof (cases "i < length (keys c)")
    case False
    with "1.prems" show ?thesis by (simp add: scanKeys_unfold [of c i])
  next
    case True
    let ?p = "(currentIndex c + i) mod length (keys c)"
    show ?thesis
    proof (cases "belowLimit c (keys c ! ?p)")
      case True
      with \<open>i < length (keys c)\<close> "1.prems" have "k = keys c ! ?p" "c' = c\<lparr>currentIndex := ?p\<rparr>"
        by (simp_all add: scanKeys_unfold [of c i])
      with True \<open>i < length (keys c)\<close> show ?thesis by (intro exI [of _ i]) auto
    next
      case False
      with True "1.prems" have "scanKeys c (i + 1) = (Some k, c')"
        by (simp add: scanKeys_unfold [of c i])
      with "1.IH" [OF True refl refl refl False [unfolded belowLimit_def]] obtain j where
        j: "i + 1 \<le> j" "j < length (keys c)"
        "c' = c\<lparr>currentIndex := (currentIndex c + j) mod length (keys c)\<rparr>"
        "k = keys c ! ((currentIndex c + j) mod length (keys c))"
        "belowLimit c k"
        and least: "\<forall>i'. i + 1 \<le> i' \<and> i' < j \<longrightarrow>
            \<not> belowLimit c (keys c ! ((currentIndex c + i') mod length (keys c)))" by blast
      have "\<not> belowLimit c (keys c ! ((currentIndex c + i') mod length (keys c)))"
        if "i \<le> i'" "i' < j" for i'
      proof (cases "i' = i")
        case True
        with False show ?thesis by simp
      next
        case False
        with that least show ?thesis by simp
      qed
      with j show ?thesis by (intro exI [of _ j]) simp
    qed
  qed
qed

lemma scanKeys_None:
  "scanKeys c i = (None, c') \<Longrightarrow>
     c' = c \<and> (\<forall>j. i \<le> j \<and> j < length (keys c) \<longrightarrow>
        \<not> belowLimit c (keys c ! ((currentIndex c + j) mod length (keys c))))"
proof (induction c i rule: scanKeys.induct)
  case (1 c i)
  show ?case
  proof (cases "i < length (keys c)")
    case False
    with "1.prems" show ?thesis by (auto simp: scanKeys_unfold [of c i])
  next
    case True
    let ?p = "(currentIndex c + i) mod length (keys c)"
    from True "1.prems" have full: "\<not> belowLimit c (keys c ! ?p)"
      by (auto simp: scanKeys_unfold [of c i] split: if_splits)
    with True "1.prems" have "scanKeys c (i + 1) = (None, c')"
      by (simp add: scanKeys_unfold [of c i])
    with "1.IH" [OF True refl refl refl full [unfolded belowLimit_def]] have
      c': "c' = c" and rest: "\<forall>j. i + 1 \<le> j \<and> j < length (keys c) \<longrightarrow>
        \<not> belowLimit c (keys c ! ((currentIndex c + j) mod length (keys c)))"
      by blast+
    have "\<not> belowLimit c (keys c ! ((currentIndex c + j) mod length (keys c)))"
      if "i \<le> j" "j < length (keys c)" for j
    proof (cases "j = i")
      case True with full show ?thesis by simp
    next
      case False with that rest show ?thesis by simp
    qed
    with c' show ?thesis by blast
  qed
qed


lemma rot_less: "j < n \<Longrightarrow> (a + j) mod n < (n::nat)"
  by (cases n) simp_all

lemma rot_surj:
  assumes "p < n"
  shows "\<exists>j < n. (ci + j) mod n = (p::nat)"
proof -
  let ?j = "(p + (n - ci mod n)) mod n"
  from assms have n: "0 < n" by simp
  have "(ci + ?j) mod n = (ci mod n + (p + (n - ci mod n))) mod n"
    by (metis mod_add_eq mod_mod_trivial)
  also have "ci mod n + (p + (n - ci mod n)) = p + n"
  proof -
    have "ci mod n < n" using n by simp
    then show ?thesis by arith
  qed
  also have "(p + n) mod n = p" using assms by simp
  finally have "(ci + ?j) mod n = p" .
  moreover have "?j < n" using n by simp
  ultimately show ?thesis by blast
qed

lemma scanKeys_cases:
  "(\<exists>k c'. scanKeys c i = (Some k, c')) \<or> scanKeys c i = (None, c)"
proof (cases "scanKeys c i")
  case (Pair r c')
  then show ?thesis using scanKeys_None [of c i c'] by (cases r) auto
qed

lemma select_some_eligible:
  assumes "k \<in> set (keys c)" "belowLimit c k"
  shows "\<exists>k' c'. getNextAvailableKey c = (Some k', c')"
proof (rule ccontr)
  assume "\<not> ?thesis"
  with scanKeys_cases [of c 0] have "scanKeys c 0 = (None, c)"
    by (simp add: getNextAvailableKey_def)
  from scanKeys_None [OF this] have all: "\<And>j. j < length (keys c) \<Longrightarrow>
      \<not> belowLimit c (keys c ! ((currentIndex c + j) mod length (keys c)))" by simp
  from assms(1) obtain p where p: "p < length (keys c)" "keys c ! p = k"
    by (auto simp: in_set_conv_nth)
  from rot_surj [OF p(1), of "currentIndex c"] obtain j where
    "j < length (keys c)" "(currentIndex c + j) mod length (keys c) = p" by blast
  with all [of j] p have "\<not> belowLimit c k" by simp
  with assms(2) show False by simp
qed

lemma getNext_Some:
  assumes "getNextAvailableKey c = (Some k, c')"
  shows "\<exists>p < length (keys c). c' = c\<lparr>currentIndex := p\<rparr> \<and> k = keys c ! p \<and>
           belowLimit c k"
proof -
  from assms have "scanKeys c 0 = (Some k, c')" by (simp add: getNextAvailableKey_def)
  from scanKeys_Some [OF this] obtain j where j: "j < length (keys c)"
    and c': "c' = c\<lparr>currentIndex := (currentIndex c + j) mod length (keys c)\<rparr>"
    and k: "k = keys c ! ((currentIndex c + j) mod length (keys c))"
    and el: "belowLimit c k" by blast
  from j have "(currentIndex c + j) mod length (keys c) < length (keys c)" by (rule rot_less)
  with c' k el show ?thesis by blast
qed

lemma getNext_None:
  assumes "fst (getNextAvailableKey c) = None"
  shows "getNextAvailableKey c = (None, c)"
  using assms scanKeys_cases [of c 0] by (auto simp: getNextAvailableKey_def)

lemma getNext_at_cursor:
  assumes "currentIndex c < length (keys c)"
    and "belowLimit c (keys c ! currentIndex c)"
  shows "getNextAvailableKey c = (Some (keys c ! currentIndex c), c)"
proof -
  from assms(1) have "0 < length (keys c)" by arith
  with assms show ?thesis
    by (simp add: getNextAvailableKey_def scanKeys_unfold [of c 0])
qed

lemma getNext_first:
  assumes "keys c \<noteq> []"
    and "belowLimit c (keys c ! (currentIndex c mod length (keys c)))"
  shows "getNextAvailableKey c =
    (Some (keys c ! (currentIndex c mod length (keys c))),
     c\<lparr>currentIndex := currentIndex c mod length (keys c)\<rparr>)"
  using assms by (simp add: getNextAvailableKey_def scanKeys_unfold [of c 0])

lemma selectTimes_fixed:
  assumes "getNextAvailableKey c = (Some k, c)"
  shows "selectTimes n c = (replicate n (Some k), c)"
  using assms by (induction n) simp_all

text \<open>Unfolding the scan one iteration at a time, for evaluation on concrete configurations.\<close>

lemma scanKeys_end: "length (keys c) \<le> i \<Longrightarrow> scanKeys c i = (None, c)"
  by (simp add: scanKeys_unfold [of c i])

lemma scanKeys_hit:
  "i < length (keys c) \<Longrightarrow>
   belowLimit c (keys c ! ((currentIndex c + i) mod length (keys c))) \<Longrightarrow>
   scanKeys c i = (Some (keys c ! ((currentIndex c + i) mod length (keys c))),
                   c\<lparr>currentIndex := (currentIndex c + i) mod length (keys c)\<rparr>)"
  by (simp add: scanKeys_unfold [of c i])

lemma scanKeys_skip:
  "i < length (keys c) \<Longrightarrow>
   \<not> belowLimit c (keys c ! ((currentIndex c + i) mod length (keys c))) \<Longrightarrow>
   scanKeys c i = scanKeys c (Suc i)"
  by (simp add: scanKeys_unfold [of c i])

lemmas scan_eval =
  getNextAvailableKey_def scanKeys_end scanKeys_hit scanKeys_skip belowLimit_def usedOrZero_def
  getUsed_def objectPrototypeMembers_def

lemma getUsed_cong: "used c' = used c \<Longrightarrow> getUsed c' t = getUsed c t"
  by (simp add: getUsed_def)

lemma usedOrZero_cong: "used c' = used c \<Longrightarrow> usedOrZero c' t = usedOrZero c t"
  using getUsed_cong [of c' c t] by (simp add: usedOrZero_def)

lemma belowLimit_cong:
  "used c' = used c \<Longrightarrow> monthly c' = monthly c \<Longrightarrow> belowLimit c' t = belowLimit c t"
  using usedOrZero_cong [of c' c t] by (simp add: belowLimit_def)

lemma belowLimit_cursor: "belowLimit (c\<lparr>currentIndex := p\<rparr>) t = belowLimit c t"
  by (rule belowLimit_cong) simp_all

lemma getNext_Some_first:
  assumes "getNextAvailableKey c = (Some k, c')"
  shows "\<exists>j < length (keys c).
           c' = c\<lparr>currentIndex := (currentIndex c + j) mod length (keys c)\<rparr> \<and>
           k = keys c ! ((currentIndex c + j) mod length (keys c)) \<and>
           belowLimit c k \<and>
           (\<forall>i < j. \<not> belowLimit c (keys c ! ((currentIndex c + i) mod length (keys c))))"
proof -
  from assms have "scanKeys c 0 = (Some k, c')" by (simp add: getNextAvailableKey_def)
  from scanKeys_Some [OF this] show ?thesis by auto
qed

lemmas record_eval = recordUsage_def setUsed_def addApiKey_def removeApiKey_def Let_def

section \<open>Selection and the cursor\<close>

text \<open>
  Claim C1, as the code has it. The scan starts at the cursor, not past it: on a non-empty
  key sequence whose key under the cursor is below the monthly limit,
  \<open>getNextAvailableKey\<close> returns that key, whatever the state of the other keys; in
  general it returns the first key below the limit in the cyclic order that starts at the
  cursor. When it returns a key, the cursor is left on the position of that key, and a
  call on the resulting configuration returns the same key and changes nothing; so does a
  call on any configuration with the same key sequence and cursor in which that key is
  still below the limit, whatever usage has been recorded in between. Hence, on a
  non-empty key sequence whose keys are all below the limit, \<open>n\<close> consecutive calls all
  return the key under the cursor.
\<close>

theorem C1_cursor_stays_on_selected:
  "(getNextAvailableKey c = (Some k, c') \<longrightarrow>
      currentIndex c' < length (keys c') \<and> keys c' ! currentIndex c' = k \<and>
      keys c' = keys c \<and> used c' = used c \<and> monthly c' = monthly c \<and>
      getNextAvailableKey c' = (Some k, c'))
   \<and> (getNextAvailableKey c = (Some k, c') \<and> keys d = keys c' \<and>
        currentIndex d = currentIndex c' \<and> belowLimit d k \<longrightarrow>
      getNextAvailableKey d = (Some k, d))
   \<and> (keys c \<noteq> [] \<and> belowLimit c (keys c ! (currentIndex c mod length (keys c))) \<longrightarrow>
      getNextAvailableKey c =
        (Some (keys c ! (currentIndex c mod length (keys c))),
         c\<lparr>currentIndex := currentIndex c mod length (keys c)\<rparr>))
   \<and> (getNextAvailableKey c = (Some k, c') \<longrightarrow>
      (\<exists>j < length (keys c).
         c' = c\<lparr>currentIndex := (currentIndex c + j) mod length (keys c)\<rparr> \<and>
         k = keys c ! ((currentIndex c + j) mod length (keys c)) \<and>
         belowLimit c k \<and>
         (\<forall>i < j. \<not> belowLimit c (keys c ! ((currentIndex c + i) mod length (keys c))))))
   \<and> (keys c \<noteq> [] \<and> (\<forall>t \<in> set (keys c). belowLimit c t) \<longrightarrow>
      fst (selectTimes n c) =
        replicate n (Some (keys c ! (currentIndex c mod length (keys c)))))"
proof (intro conjI impI)
  assume sel: "getNextAvailableKey c = (Some k, c')"
  from getNext_Some [OF sel] obtain p where p: "p < length (keys c)"
    and c': "c' = c\<lparr>currentIndex := p\<rparr>" and k: "k = keys c ! p"
    and el: "belowLimit c k" by blast
  from p c' show "currentIndex c' < length (keys c')" by simp
  from c' k show "keys c' ! currentIndex c' = k" by simp
  from c' show "keys c' = keys c" "used c' = used c" "monthly c' = monthly c" by simp_all
  have "belowLimit c' (keys c' ! currentIndex c')"
    using el c' k by (simp add: belowLimit_cursor)
  with getNext_at_cursor [of c'] p c' k show "getNextAvailableKey c' = (Some k, c')" by simp
next
  assume a: "getNextAvailableKey c = (Some k, c') \<and> keys d = keys c' \<and>
        currentIndex d = currentIndex c' \<and> belowLimit d k"
  from getNext_Some [of c k c'] a obtain p where p: "p < length (keys c)"
    and c': "c' = c\<lparr>currentIndex := p\<rparr>" and k: "k = keys c ! p" by blast
  from a p c' k have "currentIndex d < length (keys d)" "keys d ! currentIndex d = k"
    by simp_all
  with getNext_at_cursor [of d] a show "getNextAvailableKey d = (Some k, d)" by simp
next
  assume "keys c \<noteq> [] \<and> belowLimit c (keys c ! (currentIndex c mod length (keys c)))"
  then show "getNextAvailableKey c =
        (Some (keys c ! (currentIndex c mod length (keys c))),
         c\<lparr>currentIndex := currentIndex c mod length (keys c)\<rparr>)"
    by (simp add: getNext_first)
next
  assume "getNextAvailableKey c = (Some k, c')"
  then show "\<exists>j < length (keys c).
         c' = c\<lparr>currentIndex := (currentIndex c + j) mod length (keys c)\<rparr> \<and>
         k = keys c ! ((currentIndex c + j) mod length (keys c)) \<and>
         belowLimit c k \<and>
         (\<forall>i < j. \<not> belowLimit c (keys c ! ((currentIndex c + i) mod length (keys c))))"
    by (rule getNext_Some_first)
next
  assume a: "keys c \<noteq> [] \<and> (\<forall>t \<in> set (keys c). belowLimit c t)"
  let ?p = "currentIndex c mod length (keys c)"
  let ?c' = "c\<lparr>currentIndex := ?p\<rparr>"
  from a have p: "?p < length (keys c)" by simp
  with a have el: "belowLimit c (keys c ! ?p)" by simp
  with a have first: "getNextAvailableKey c = (Some (keys c ! ?p), ?c')"
    by (simp add: getNext_first)
  have "belowLimit ?c' (keys ?c' ! currentIndex ?c')"
    using el by (simp add: belowLimit_cursor)
  with getNext_at_cursor [of ?c'] p
  have again: "getNextAvailableKey ?c' = (Some (keys c ! ?p), ?c')" by simp
  show "fst (selectTimes n c) = replicate n (Some (keys c ! ?p))"
  proof (cases n)
    case 0 then show ?thesis by simp
  next
    case (Suc m)
    with first selectTimes_fixed [OF again, of m] show ?thesis by simp
  qed
qed


theorem C1_cursor_stays_on_selected_witness:
  "getNextAvailableKey \<lparr>keys = [''A'', ''B'', ''C''], currentIndex = 0, monthly = 10,
        used = [''A'' \<mapsto> Num 1, ''B'' \<mapsto> Num 0, ''C'' \<mapsto> Num 10]\<rparr>
     = (Some ''A'', \<lparr>keys = [''A'', ''B'', ''C''], currentIndex = 0, monthly = 10,
        used = [''A'' \<mapsto> Num 1, ''B'' \<mapsto> Num 0, ''C'' \<mapsto> Num 10]\<rparr>)
   \<and> fst (getNextAvailableKey (recordUsage ''A''
        \<lparr>keys = [''A'', ''B'', ''C''], currentIndex = 0, monthly = 10,
         used = [''A'' \<mapsto> Num 1, ''B'' \<mapsto> Num 0, ''C'' \<mapsto> Num 10]\<rparr>)) = Some ''A''
   \<and> fst (selectTimes 3 \<lparr>keys = [''A'', ''B''], currentIndex = 1, monthly = 500,
        used = [''A'' \<mapsto> Num 0, ''B'' \<mapsto> Num 0]\<rparr>) = [Some ''B'', Some ''B'', Some ''B'']"
proof -
  let ?c = "\<lparr>keys = [''A'', ''B'', ''C''], currentIndex = 0, monthly = 10,
        used = [''A'' \<mapsto> Num 1, ''B'' \<mapsto> Num 0, ''C'' \<mapsto> Num 10]\<rparr>"
  let ?d = "recordUsage ''A'' ?c"
  let ?e = "\<lparr>keys = [''A'', ''B''], currentIndex = 1, monthly = 500,
        used = [''A'' \<mapsto> Num 0, ''B'' \<mapsto> Num 0]\<rparr>"
  have cursor: "keys ?c \<noteq> [] \<and> belowLimit ?c (keys ?c ! (currentIndex ?c mod length (keys ?c)))"
    by (simp add: scan_eval)
  with C1_cursor_stays_on_selected [of ?c "''A''" ?c ?d 0]
  have "getNextAvailableKey ?c =
      (Some (keys ?c ! (currentIndex ?c mod length (keys ?c))),
       ?c\<lparr>currentIndex := currentIndex ?c mod length (keys ?c)\<rparr>)" by blast
  then have sel: "getNextAvailableKey ?c = (Some ''A'', ?c)" by simp
  have later: "keys ?d = keys ?c \<and> currentIndex ?d = currentIndex ?c \<and> belowLimit ?d ''A''"
    by (simp add: scan_eval record_eval js_succ_def)
  with sel C1_cursor_stays_on_selected [of ?c "''A''" ?c ?d 0]
  have again: "getNextAvailableKey ?d = (Some ''A'', ?d)" by blast
  have all: "keys ?e \<noteq> [] \<and> (\<forall>t \<in> set (keys ?e). belowLimit ?e t)"
    by (simp add: scan_eval)
  with C1_cursor_stays_on_selected [of ?e "''B''" ?e ?e 3]
  have "fst (selectTimes 3 ?e) =
      replicate 3 (Some (keys ?e ! (currentIndex ?e mod length (keys ?e))))" by blast
  then have three: "fst (selectTimes 3 ?e) = [Some ''B'', Some ''B'', Some ''B'']"
    by (simp add: numeral_3_eq_3)
  from sel again three show ?thesis by simp
qed

text \<open>
  Claim C1 as the specification words it (two fresh credentials A and B, cursor on A, two
  calls return A then B) does not hold: the second call returns A again.
\<close>

theorem C1_round_robin_counterexample:
  "fst (selectTimes 2 \<lparr>keys = [''A'', ''B''], currentIndex = 0, monthly = 500,
        used = [''A'' \<mapsto> Num 0, ''B'' \<mapsto> Num 0]\<rparr>) = [Some ''A'', Some ''A'']
   \<and> fst (selectTimes 2 \<lparr>keys = [''A'', ''B''], currentIndex = 0, monthly = 500,
        used = [''A'' \<mapsto> Num 0, ''B'' \<mapsto> Num 0]\<rparr>) \<noteq> [Some ''A'', Some ''B'']"
  by (simp add: scan_eval numeral_2_eq_2)

lemma belowLimit_iff:
  "belowLimit c t \<longleftrightarrow> (\<exists>v. usedOrZero c t = Number (Num v) \<and> v < monthly c)"
proof (cases "usedOrZero c t")
  case Undefined
  then show ?thesis by (simp add: belowLimit_def)
next
  case (Number n)
  then show ?thesis by (cases n) (simp_all add: belowLimit_def)
next
  case Inherited
  then show ?thesis by (simp add: belowLimit_def)
qed

section \<open>Eligibility\<close>

text \<open>
  Claim C4. Whenever \<open>getNextAvailableKey\<close> returns a key, the key is a member of the key
  sequence and its usage is a number strictly below the monthly limit; so a key whose
  usage is at or above the limit, or is not below it for any other reason, is never
  returned, and when some key of the sequence is below the limit the call does return a
  key below the limit. With a single key whose limit is 1 and whose usage is 1, the call
  returns \<open>null\<close>.
\<close>

theorem C4_selected_is_eligible:
  "(getNextAvailableKey c = (Some k, c') \<longrightarrow>
      k \<in> set (keys c) \<and> (\<exists>v. usedOrZero c k = Number (Num v) \<and> v < monthly c))
   \<and> (usedOrZero c t = Number (Num w) \<and> monthly c \<le> w \<longrightarrow>
        fst (getNextAvailableKey c) \<noteq> Some t)
   \<and> (\<not> belowLimit c t \<longrightarrow> fst (getNextAvailableKey c) \<noteq> Some t)
   \<and> (e \<in> set (keys c) \<and> belowLimit c e \<longrightarrow>
        (\<exists>k' c''. getNextAvailableKey c = (Some k', c'') \<and> belowLimit c k'))
   \<and> fst (getNextAvailableKey
          \<lparr>keys = [a], currentIndex = 0, monthly = 1, used = [a \<mapsto> Num 1]\<rparr>) = None"
proof (intro conjI impI)
  assume "getNextAvailableKey c = (Some k, c')"
  from getNext_Some [OF this] show "k \<in> set (keys c)"
    "\<exists>v. usedOrZero c k = Number (Num v) \<and> v < monthly c"
    by (auto simp: belowLimit_iff)
next
  have never: "fst (getNextAvailableKey c) \<noteq> Some t" if full: "\<not> belowLimit c t"
  proof
    assume "fst (getNextAvailableKey c) = Some t"
    then have "getNextAvailableKey c = (Some t, snd (getNextAvailableKey c))"
      by (metis prod.collapse)
    from getNext_Some [OF this] have "belowLimit c t" by blast
    with full show False by simp
  qed
  show "fst (getNextAvailableKey c) \<noteq> Some t" if "\<not> belowLimit c t"
    using that by (rule never)
  show "fst (getNextAvailableKey c) \<noteq> Some t"
    if "usedOrZero c t = Number (Num w) \<and> monthly c \<le> w"
  proof -
    from that have "\<not> belowLimit c t" by (simp add: belowLimit_def)
    then show ?thesis by (rule never)
  qed
next
  assume "e \<in> set (keys c) \<and> belowLimit c e"
  then obtain k' c'' where sel: "getNextAvailableKey c = (Some k', c'')"
    using select_some_eligible by blast
  from getNext_Some [OF sel] have "belowLimit c k'" by blast
  with sel show "\<exists>k' c''. getNextAvailableKey c = (Some k', c'') \<and> belowLimit c k'"
    by blast
next
  show "fst (getNextAvailableKey
          \<lparr>keys = [a], currentIndex = 0, monthly = 1, used = [a \<mapsto> Num 1]\<rparr>) = None"
    by (simp add: getNextAvailableKey_def scanKeys_end scanKeys_skip belowLimit_def
        usedOrZero_def getUsed_def)
qed

theorem C4_selected_is_eligible_witness:
  "getNextAvailableKey \<lparr>keys = [''A'', ''B''], currentIndex = 0, monthly = 2,
        used = [''A'' \<mapsto> Num 2, ''B'' \<mapsto> Num 1]\<rparr>
     = (Some ''B'', \<lparr>keys = [''A'', ''B''], currentIndex = 1, monthly = 2,
        used = [''A'' \<mapsto> Num 2, ''B'' \<mapsto> Num 1]\<rparr>)
   \<and> usedOrZero \<lparr>keys = [''A'', ''B''], currentIndex = 0, monthly = 2,
        used = [''A'' \<mapsto> Num 2, ''B'' \<mapsto> Num 1]\<rparr> ''B'' = Number (Num 1)
   \<and> fst (getNextAvailableKey \<lparr>keys = [''A'', ''B''], currentIndex = 0, monthly = 2,
        used = [''A'' \<mapsto> Num 2, ''B'' \<mapsto> Num 1]\<rparr>) \<noteq> Some ''A''
   \<and> fst (getNextAvailableKey
          \<lparr>keys = [''A''], currentIndex = 0, monthly = 1, used = [''A'' \<mapsto> Num 1]\<rparr>) = None"
  using C4_selected_is_eligible
    [of "\<lparr>keys = [''A'', ''B''], currentIndex = 0, monthly = 2,
          used = [''A'' \<mapsto> Num 2, ''B'' \<mapsto> Num 1]\<rparr>" "''B''"
        "\<lparr>keys = [''A'', ''B''], currentIndex = 1, monthly = 2,
          used = [''A'' \<mapsto> Num 2, ''B'' \<mapsto> Num 1]\<rparr>" "''A''" 2 "''B''" "''A''"]
  by (simp add: scan_eval)

text \<open>
  Claim C5. When every key of the sequence is at or above the monthly limit (no key is
  below it), the scan runs through its \<open>keys.length\<close> iterations, \<open>getNextAvailableKey\<close>
  returns \<open>null\<close> and the configuration, the cursor included, is the one it was called
  with.
\<close>

theorem C5_exhausted_returns_none:
  assumes "\<forall>k \<in> set (keys c). \<not> belowLimit c k"
  shows "getNextAvailableKey c = (None, c)"
proof (cases "getNextAvailableKey c")
  case (Pair r c')
  show ?thesis
  proof (cases r)
    case None
    with Pair getNext_None [of c] show ?thesis by simp
  next
    case (Some k)
    with Pair have "getNextAvailableKey c = (Some k, c')" by simp
    from getNext_Some [OF this] obtain p where p: "p < length (keys c)" "k = keys c ! p"
      and el: "belowLimit c k" by blast
    from p have "k \<in> set (keys c)" by simp
    with assms have "\<not> belowLimit c k" by blast
    with el show ?thesis by simp
  qed
qed

theorem C5_exhausted_returns_none_witness:
  "getNextAvailableKey \<lparr>keys = [''A'', ''B''], currentIndex = 1, monthly = 2,
        used = [''A'' \<mapsto> Num 2, ''B'' \<mapsto> Num 3]\<rparr>
     = (None, \<lparr>keys = [''A'', ''B''], currentIndex = 1, monthly = 2,
        used = [''A'' \<mapsto> Num 2, ''B'' \<mapsto> Num 3]\<rparr>)"
  using C5_exhausted_returns_none
    [of "\<lparr>keys = [''A'', ''B''], currentIndex = 1, monthly = 2,
          used = [''A'' \<mapsto> Num 2, ''B'' \<mapsto> Num 3]\<rparr>"]
  by (simp add: belowLimit_def usedOrZero_def getUsed_def)

section \<open>Usage counts\<close>

lemma getNext_config:
  "keys (snd (getNextAvailableKey c)) = keys c \<and>
   used (snd (getNextAvailableKey c)) = used c \<and>
   monthly (snd (getNextAvailableKey c)) = monthly c"
proof (cases "getNextAvailableKey c")
  case (Pair r c')
  show ?thesis
  proof (cases r)
    case None
    with Pair getNext_None [of c] show ?thesis by simp
  next
    case (Some k)
    with Pair have "getNextAvailableKey c = (Some k, c')" by simp
    from getNext_Some [OF this] Pair show ?thesis by auto
  qed
qed

lemma getNext_usedOrZero: "usedOrZero (snd (getNextAvailableKey c)) t = usedOrZero c t"
  by (rule usedOrZero_cong) (simp add: getNext_config)

lemma js_succ_ge: "v \<le> js_succ v"
  by (simp add: js_succ_def)

lemma js_succ_safe: "- (2 ^ 53) \<le> v \<Longrightarrow> v < 2 ^ 53 \<Longrightarrow> js_succ v = v + 1"
  by (simp add: js_succ_def)

lemma setUsed_fields:
  "keys (setUsed t n c) = keys c \<and> currentIndex (setUsed t n c) = currentIndex c \<and>
   monthly (setUsed t n c) = monthly c"
  by (simp add: setUsed_def)

lemma setUsed_other: "k \<noteq> t \<Longrightarrow> used (setUsed t n c) k = used c k"
  by (simp add: setUsed_def)

lemma recordUsage_fields:
  "keys (recordUsage t c) = keys c \<and> currentIndex (recordUsage t c) = currentIndex c \<and>
   monthly (recordUsage t c) = monthly c"
  by (simp add: recordUsage_def Let_def setUsed_fields)

lemma recordUsage_used_other: "k \<noteq> t \<Longrightarrow> used (recordUsage t c) k = used c k"
  by (simp add: recordUsage_def Let_def setUsed_other)

lemma getUsed_other:
  "used c' k = used c k \<Longrightarrow> getUsed c' k = getUsed c k"
  by (simp add: getUsed_def)

lemma usedOrZero_other:
  "used c' k = used c k \<Longrightarrow> usedOrZero c' k = usedOrZero c k"
  using getUsed_other [of c' k c] by (simp add: usedOrZero_def)

lemma recordUsage_other: "k \<noteq> t \<Longrightarrow> usedOrZero (recordUsage t c) k = usedOrZero c k"
  by (rule usedOrZero_other) (rule recordUsage_used_other)

text \<open>The entry of the token itself, by what the read yields before the call.\<close>

lemma recordUsage_own:
  "used c t = Some (Num v) \<Longrightarrow> used (recordUsage t c) t = Some (Num (js_succ v))"
  by (simp add: recordUsage_def Let_def setUsed_def getUsed_def js_succ_def)

lemma recordUsage_own_NaN: "used c t = Some NaN \<Longrightarrow> used (recordUsage t c) t = Some (Num 1)"
  by (simp add: recordUsage_def Let_def setUsed_def getUsed_def js_succ_def)

lemma recordUsage_absent:
  "getUsed c t = Undefined \<Longrightarrow> used (recordUsage t c) t = Some (Num 1)"
  by (auto simp: recordUsage_def Let_def setUsed_def getUsed_def js_succ_def
      objectPrototypeMembers_def split: option.splits if_splits)

lemma recordUsage_same:
  assumes "usedOrZero c t = Number (Num v)"
  shows "usedOrZero (recordUsage t c) t = Number (Num (js_succ v))"
proof (cases "used c t")
  case None
  with assms have undef: "getUsed c t = Undefined" and v: "v = 0"
    by (auto simp: usedOrZero_def getUsed_def split: if_splits)
  from recordUsage_absent [OF undef] v show ?thesis
    by (simp add: usedOrZero_def getUsed_def js_succ_def)
next
  case (Some n)
  show ?thesis
  proof (cases n)
    case (Num w)
    with Some assms have v: "v = w"
      by (auto simp: usedOrZero_def getUsed_def split: if_splits)
    from Some Num have "used (recordUsage t c) t = Some (Num (js_succ w))"
      by (simp add: recordUsage_own)
    with v show ?thesis by (simp add: usedOrZero_def getUsed_def)
  next
    case NaN
    with Some assms have v: "v = 0" by (simp add: usedOrZero_def getUsed_def)
    from Some NaN have "used (recordUsage t c) t = Some (Num 1)"
      by (simp add: recordUsage_own_NaN)
    with v show ?thesis by (simp add: usedOrZero_def getUsed_def js_succ_def)
  qed
qed

lemma addApiKey_usedOrZero:
  "t \<in> set (keys c) \<Longrightarrow> usedOrZero (addApiKey k c) t = usedOrZero c t"
proof (cases "k \<in> set (keys c)")
  case True
  then show ?thesis by (simp add: addApiKey_def)
next
  case False
  assume "t \<in> set (keys c)"
  with False have "t \<noteq> k" by auto
  then have "used (addApiKey k c) t = used c t"
    using False by (simp add: addApiKey_def setUsed_def)
  then show ?thesis by (rule usedOrZero_other)
qed

lemma step_keeps_members:
  assumes "\<forall>x. op \<noteq> RemoveCredential x" "t \<in> set (keys c)"
  shows "t \<in> set (keys (ledger_step op c))"
  using assms
  by (cases op) (simp_all add: getNext_config recordUsage_fields addApiKey_def setUsed_fields)

lemma step_usage_mono:
  assumes "\<forall>x. op \<noteq> RemoveCredential x" "t \<in> set (keys c)"
    and "usedOrZero c t = Number (Num v)"
  shows "\<exists>v'. usedOrZero (ledger_step op c) t = Number (Num v') \<and> v \<le> v'"
proof (cases op)
  case SelectCredential
  with assms(3) show ?thesis by (simp add: getNext_usedOrZero)
next
  case (RecordUsage k)
  show ?thesis
  proof (cases "k = t")
    case True
    with RecordUsage recordUsage_same [OF assms(3)] js_succ_ge [of v] show ?thesis by simp
  next
    case False
    then have "t \<noteq> k" by simp
    with RecordUsage assms(3) recordUsage_other [of t k c] show ?thesis by simp
  qed
next
  case (AddCredential k)
  with assms(2,3) show ?thesis by (simp add: addApiKey_usedOrZero)
next
  case (RemoveCredential k)
  with assms(1) show ?thesis by simp
qed

lemma run_usage_mono:
  assumes "\<forall>x. RemoveCredential x \<notin> set ops" "t \<in> set (keys c)"
    and "usedOrZero c t = Number (Num v)"
  shows "\<exists>v'. usedOrZero (ledger_run ops c) t = Number (Num v') \<and> v \<le> v'"
  using assms
proof (induction ops arbitrary: c v)
  case Nil
  then show ?case by simp
next
  case (Cons op ops)
  from Cons.prems(1) have op: "\<forall>x. op \<noteq> RemoveCredential x"
    and rest: "\<forall>x. RemoveCredential x \<notin> set ops" by auto
  from step_usage_mono [OF op Cons.prems(2,3)] obtain w where
    w: "usedOrZero (ledger_step op c) t = Number (Num w)" "v \<le> w" by blast
  from Cons.IH [OF rest step_keeps_members [OF op Cons.prems(2)] w(1)] obtain v' where
    "usedOrZero (ledger_run ops (ledger_step op c)) t = Number (Num v')" "w \<le> v'" by blast
  with w(2) show ?case by (intro exI [of _ v']) simp
qed

text \<open>What \<open>used[x] || 0\<close> can be after a call, by the call.\<close>

lemma proto_member: "''__proto__'' \<in> set objectPrototypeMembers"
  by (simp add: objectPrototypeMembers_def)

lemma usedOrZero_setUsed_same:
  "usedOrZero (setUsed t n c) t = usedOrZero c t \<or>
   usedOrZero (setUsed t n c) t = (if falsy (Number n) then Number (Num 0) else Number n)"
  by (auto simp: setUsed_def usedOrZero_def getUsed_def proto_member)

lemma usedOrZero_removed:
  "usedOrZero (removeApiKey t c) t = Number (Num 0) \<or>
   usedOrZero (removeApiKey t c) t = Inherited"
  by (simp add: removeApiKey_def Let_def usedOrZero_def getUsed_def)

lemma recordUsage_nonneg:
  assumes "\<forall>w. usedOrZero c t = Number (Num w) \<longrightarrow> 0 \<le> w"
    and "usedOrZero (recordUsage t c) t = Number (Num w')"
  shows "0 \<le> w'"
proof (cases "usedOrZero c t")
  case Undefined
  then show ?thesis by (simp add: usedOrZero_def split: if_splits)
next
  case (Number n)
  show ?thesis
  proof (cases n)
    case (Num v)
    with Number assms(1) have "0 \<le> v" by simp
    moreover from Number Num recordUsage_same [of c t v] assms(2) have "w' = js_succ v"
      by simp
    ultimately show ?thesis using js_succ_ge [of v] by simp
  next
    case NaN
    with Number show ?thesis by (simp add: usedOrZero_def split: if_splits)
  qed
next
  case Inherited
  then have g: "getUsed c t = Inherited" by (simp add: usedOrZero_def split: if_splits)
  then have "used c t = None" by (simp add: getUsed_def split: option.splits)
  with g have "used (recordUsage t c) t = None \<or> used (recordUsage t c) t = Some NaN"
    by (auto simp: recordUsage_def Let_def setUsed_def)
  with assms(2) show ?thesis
    by (auto simp: usedOrZero_def getUsed_def split: if_splits)
qed

lemma step_usage_nonneg:
  assumes "\<forall>x w. usedOrZero c x = Number (Num w) \<longrightarrow> 0 \<le> w"
    and "usedOrZero (ledger_step op c) x = Number (Num w)"
  shows "0 \<le> w"
proof (cases op)
  case SelectCredential
  with assms show ?thesis by (simp add: getNext_usedOrZero)
next
  case (RecordUsage t)
  show ?thesis
  proof (cases "x = t")
    case True
    with RecordUsage assms recordUsage_nonneg [of c t w] show ?thesis by simp
  next
    case False
    with RecordUsage assms recordUsage_other [of x t c] show ?thesis by simp
  qed
next
  case (AddCredential t)
  show ?thesis
  proof (cases "t \<in> set (keys c)")
    case True
    with AddCredential assms show ?thesis by (simp add: addApiKey_def)
  next
    case False
    show ?thesis
    proof (cases "x = t")
      case True
      from usedOrZero_setUsed_same [of t "Num 0" "c\<lparr>keys := keys c @ [t]\<rparr>"]
        usedOrZero_cong [of "c\<lparr>keys := keys c @ [t]\<rparr>" c t]
      have "usedOrZero (addApiKey t c) t = usedOrZero c t \<or>
          usedOrZero (addApiKey t c) t = Number (Num 0)"
        using False by (simp add: addApiKey_def)
      with True AddCredential assms show ?thesis by auto
    next
      case neq: False
      then have "used (addApiKey t c) x = used c x"
        using False by (simp add: addApiKey_def setUsed_def)
      from usedOrZero_other [OF this] AddCredential assms show ?thesis by simp
    qed
  qed
next
  case (RemoveCredential t)
  show ?thesis
  proof (cases "x = t")
    case True
    with RemoveCredential assms(2) usedOrZero_removed [of t c] show ?thesis by auto
  next
    case False
    then have "used (removeApiKey t c) x = used c x" by (simp add: removeApiKey_def Let_def)
    from usedOrZero_other [OF this] RemoveCredential assms show ?thesis by simp
  qed
qed

lemma run_usage_nonneg:
  assumes "\<forall>x w. usedOrZero c x = Number (Num w) \<longrightarrow> 0 \<le> w"
    and "usedOrZero (ledger_run ops c) x = Number (Num w)"
  shows "0 \<le> w"
  using assms
proof (induction ops arbitrary: c)
  case Nil
  then show ?case by simp
next
  case (Cons op ops)
  have "\<forall>x w. usedOrZero (ledger_step op c) x = Number (Num w) \<longrightarrow> 0 \<le> w"
    using step_usage_nonneg [OF Cons.prems(1)] by blast
  from Cons.IH [OF this] Cons.prems(2) show ?case by simp
qed

text \<open>
  Claim C2, as the code has it. The usage of a token is \<open>used[token] || 0\<close>. Where it is a
  number \<open>v\<close> with \<open>-2^53 \<le> v < 2^53\<close>, one call \<open>recordUsage(t)\<close> makes the usage of \<open>t\<close>
  exactly \<open>v + 1\<close>; for every number \<open>v\<close> the usage afterwards is a number that is not
  smaller; and the usage of every other token is as it was. Along any sequence of
  \<open>getNextAvailableKey\<close>, \<open>recordUsage\<close> and \<open>addApiKey\<close> calls, the usage of a credential (a
  token of the key sequence) that is a number stays a number and never gets smaller; and
  if no usage is a negative number at the start, none is after any sequence of calls.
\<close>

theorem C2_usage_monotone:
  "(usedOrZero c t = Number (Num v) \<and> - (2 ^ 53) \<le> v \<and> v < 2 ^ 53 \<longrightarrow>
      usedOrZero (recordUsage t c) t = Number (Num (v + 1)))
   \<and> (usedOrZero c t = Number (Num v) \<longrightarrow>
      (\<exists>v'. usedOrZero (recordUsage t c) t = Number (Num v') \<and> v \<le> v'))
   \<and> (k \<noteq> t \<longrightarrow> usedOrZero (recordUsage t c) k = usedOrZero c k)
   \<and> ((\<forall>x. RemoveCredential x \<notin> set ops) \<and> t \<in> set (keys c) \<and>
        usedOrZero c t = Number (Num v) \<longrightarrow>
      (\<exists>v'. usedOrZero (ledger_run ops c) t = Number (Num v') \<and> v \<le> v'))
   \<and> ((\<forall>x w. usedOrZero c x = Number (Num w) \<longrightarrow> 0 \<le> w) \<longrightarrow>
      (\<forall>x w. usedOrZero (ledger_run ops c) x = Number (Num w) \<longrightarrow> 0 \<le> w))"
proof (intro conjI impI allI)
  show "usedOrZero (recordUsage t c) t = Number (Num (v + 1))"
    if "usedOrZero c t = Number (Num v) \<and> - (2 ^ 53) \<le> v \<and> v < 2 ^ 53"
    using that recordUsage_same [of c t v] js_succ_safe [of v] by simp
  show "\<exists>v'. usedOrZero (recordUsage t c) t = Number (Num v') \<and> v \<le> v'"
    if "usedOrZero c t = Number (Num v)"
    using recordUsage_same [OF that] js_succ_ge [of v] by simp
  show "usedOrZero (recordUsage t c) k = usedOrZero c k" if "k \<noteq> t"
    using that by (rule recordUsage_other)
  show "\<exists>v'. usedOrZero (ledger_run ops c) t = Number (Num v') \<and> v \<le> v'"
    if "(\<forall>x. RemoveCredential x \<notin> set ops) \<and> t \<in> set (keys c) \<and>
        usedOrZero c t = Number (Num v)"
    using that run_usage_mono by blast
  show "0 \<le> w"
    if "\<forall>x w. usedOrZero c x = Number (Num w) \<longrightarrow> 0 \<le> w"
      and "usedOrZero (ledger_run ops c) x = Number (Num w)" for x w
    using that by (rule run_usage_nonneg)
qed

theorem C2_usage_monotone_witness:
  "usedOrZero (recordUsage ''A'' \<lparr>keys = [''A'', ''B''], currentIndex = 0, monthly = 500,
        used = [''A'' \<mapsto> Num 0, ''B'' \<mapsto> Num 0]\<rparr>) ''A'' = Number (Num 1)
   \<and> usedOrZero (recordUsage ''A'' \<lparr>keys = [''A'', ''B''], currentIndex = 0, monthly = 500,
        used = [''A'' \<mapsto> Num 0, ''B'' \<mapsto> Num 0]\<rparr>) ''B'' = Number (Num 0)
   \<and> usedOrZero (ledger_run
        [SelectCredential, RecordUsage ''A'', AddCredential ''C'', RecordUsage ''A'']
        \<lparr>keys = [''A'', ''B''], currentIndex = 0, monthly = 500,
         used = [''A'' \<mapsto> Num 0, ''B'' \<mapsto> Num 0]\<rparr>) ''A'' = Number (Num 2)
   \<and> usedOrZero (ledger_run
        [SelectCredential, RecordUsage ''A'', AddCredential ''C'', RecordUsage ''A'']
        \<lparr>keys = [''A'', ''B''], currentIndex = 0, monthly = 500,
         used = [''A'' \<mapsto> Num 0, ''B'' \<mapsto> Num 0]\<rparr>) ''C'' = Number (Num 0)"
proof -
  let ?c = "\<lparr>keys = [''A'', ''B''], currentIndex = 0, monthly = 500,
        used = [''A'' \<mapsto> Num 0, ''B'' \<mapsto> Num 0]\<rparr>"
  let ?ops = "[SelectCredential, RecordUsage ''A'', AddCredential ''C'', RecordUsage ''A'']"
  note inst = C2_usage_monotone [of ?c "''A''" 0 "''B''" ?ops]
  note exact = inst [THEN conjunct1]
  note others = inst [THEN conjunct2, THEN conjunct2, THEN conjunct1]
  note mono = inst [THEN conjunct2, THEN conjunct2, THEN conjunct2, THEN conjunct1]
  have start: "usedOrZero ?c ''A'' = Number (Num 0)"
    by (simp add: usedOrZero_def getUsed_def)
  then have "usedOrZero ?c ''A'' = Number (Num 0) \<and> - (2 ^ 53) \<le> (0::int) \<and> (0::int) < 2 ^ 53"
    by simp
  with exact have "usedOrZero (recordUsage ''A'' ?c) ''A'' = Number (Num (0 + 1))"
    by (rule mp)
  then have one: "usedOrZero (recordUsage ''A'' ?c) ''A'' = Number (Num 1)" by simp
  have "''B'' \<noteq> ''A''" by simp
  with others have "usedOrZero (recordUsage ''A'' ?c) ''B'' = usedOrZero ?c ''B''"
    by (rule mp)
  then have other: "usedOrZero (recordUsage ''A'' ?c) ''B'' = Number (Num 0)"
    by (simp add: usedOrZero_def getUsed_def)
  have "(\<forall>x. RemoveCredential x \<notin> set ?ops) \<and> ''A'' \<in> set (keys ?c) \<and>
      usedOrZero ?c ''A'' = Number (Num 0)"
    using start by simp
  with mono have "\<exists>v'. usedOrZero (ledger_run ?ops ?c) ''A'' = Number (Num v') \<and> 0 \<le> v'"
    by (rule mp)
  have two: "usedOrZero (ledger_run ?ops ?c) ''A'' = Number (Num 2)"
    by (simp add: scan_eval record_eval js_succ_def)
  have fresh: "usedOrZero (ledger_run ?ops ?c) ''C'' = Number (Num 0)"
    by (simp add: scan_eval record_eval js_succ_def)
  from one other two fresh show ?thesis by simp
qed

text \<open>
  Claim C2 as the specification words it (exactly one more for every token and every
  state) does not hold: the counts are doubles, and at \<open>2^53\<close> the increment leaves the
  count as it is.
\<close>

theorem C2_exactly_one_counterexample:
  "usedOrZero \<lparr>keys = [''A''], currentIndex = 0, monthly = 500,
        used = [''A'' \<mapsto> Num 9007199254740992]\<rparr> ''A'' = Number (Num 9007199254740992)
   \<and> usedOrZero (recordUsage ''A'' \<lparr>keys = [''A''], currentIndex = 0, monthly = 500,
        used = [''A'' \<mapsto> Num 9007199254740992]\<rparr>) ''A'' = Number (Num 9007199254740992)"
  by (simp add: usedOrZero_def getUsed_def record_eval js_succ_def)

text \<open>
  Membership in the key sequence matters in C2: \<open>addApiKey\<close> of a token that is not in the
  sequence writes \<open>used[token] = 0\<close>, also over an entry that \<open>recordUsage\<close> created for the
  token before it was registered.
\<close>

lemma orphan_usage_reset_by_add:
  "usedOrZero (ledger_run [RecordUsage ''X'', AddCredential ''X'']
      \<lparr>keys = [], currentIndex = 0, monthly = 500, used = Map.empty\<rparr>) ''X'' = Number (Num 0)
   \<and> usedOrZero (ledger_run [RecordUsage ''X'']
      \<lparr>keys = [], currentIndex = 0, monthly = 500, used = Map.empty\<rparr>) ''X'' = Number (Num 1)"
  by (simp add: scan_eval record_eval js_succ_def)







section \<open>The cursor under additions and removals\<close>

lemma cursor_in_range_valid: "cursor_in_range c \<Longrightarrow> cursor_valid c"
  by (auto simp: cursor_in_range_def cursor_valid_def)

lemma removeApiKey_in_range: "cursor_in_range (removeApiKey t c)"
  by (simp add: removeApiKey_def cursor_in_range_def Let_def)

lemma addApiKey_in_range: "cursor_in_range c \<Longrightarrow> cursor_in_range (addApiKey t c)"
  by (auto simp: addApiKey_def cursor_in_range_def setUsed_fields)

lemma getNext_in_range:
  assumes "cursor_in_range c"
  shows "cursor_in_range (snd (getNextAvailableKey c))"
proof (cases "getNextAvailableKey c")
  case (Pair r c')
  show ?thesis
  proof (cases r)
    case None
    with Pair getNext_None [of c] assms show ?thesis by simp
  next
    case (Some k)
    with Pair have "getNextAvailableKey c = (Some k, c')" by simp
    from getNext_Some [OF this] Pair show ?thesis by (auto simp: cursor_in_range_def)
  qed
qed

lemma recordUsage_in_range: "cursor_in_range c \<Longrightarrow> cursor_in_range (recordUsage t c)"
  by (simp add: cursor_in_range_def recordUsage_fields)

lemma step_in_range: "cursor_in_range c \<Longrightarrow> cursor_in_range (ledger_step op c)"
  by (cases op)
    (simp_all add: getNext_in_range removeApiKey_in_range addApiKey_in_range
      recordUsage_in_range)

lemma run_in_range: "cursor_in_range c \<Longrightarrow> cursor_in_range (ledger_run ops c)"
  by (induction ops arbitrary: c) (simp_all add: step_in_range)

text \<open>
  Claim C3, as the code has it. From a configuration whose cursor is a valid index or is 0,
  every sequence of manager calls, in particular of \<open>addApiKey\<close> and \<open>removeApiKey\<close> calls,
  leaves the cursor a valid index or 0, hence a valid index unless the sequence is empty.
  A removal that leaves the cursor at or past the end of the shortened sequence sets it
  to 0, any other removal keeps it, and after a removal the cursor is valid whatever it
  was before.
\<close>

theorem C3_cursor_invariant:
  "(cursor_in_range c \<longrightarrow>
      cursor_in_range (ledger_run ops c) \<and> cursor_valid (ledger_run ops c))
   \<and> (length (filter (\<lambda>key. key \<noteq> t) (keys c)) \<le> currentIndex c \<longrightarrow>
        currentIndex (removeApiKey t c) = 0)
   \<and> (currentIndex c < length (filter (\<lambda>key. key \<noteq> t) (keys c)) \<longrightarrow>
        currentIndex (removeApiKey t c) = currentIndex c)
   \<and> cursor_valid (removeApiKey t c)"
proof (intro conjI impI)
  assume a: "cursor_in_range c"
  then show "cursor_in_range (ledger_run ops c)" by (rule run_in_range)
  then show "cursor_valid (ledger_run ops c)" by (rule cursor_in_range_valid)
next
  show "currentIndex (removeApiKey t c) = 0"
    if "length (filter (\<lambda>key. key \<noteq> t) (keys c)) \<le> currentIndex c"
    using that by (simp add: removeApiKey_def Let_def)
  show "currentIndex (removeApiKey t c) = currentIndex c"
    if "currentIndex c < length (filter (\<lambda>key. key \<noteq> t) (keys c))"
    using that by (simp add: removeApiKey_def Let_def)
  show "cursor_valid (removeApiKey t c)"
    using removeApiKey_in_range by (rule cursor_in_range_valid)
qed

theorem C3_cursor_invariant_witness:
  "cursor_in_range \<lparr>keys = [''A'', ''B'', ''C''], currentIndex = 2, monthly = 500,
        used = Map.empty\<rparr>
   \<and> cursor_valid (ledger_run [RemoveCredential ''C'', AddCredential ''D'', RemoveCredential ''A'']
        \<lparr>keys = [''A'', ''B'', ''C''], currentIndex = 2, monthly = 500, used = Map.empty\<rparr>)
   \<and> currentIndex (removeApiKey ''C''
        \<lparr>keys = [''A'', ''B'', ''C''], currentIndex = 2, monthly = 500, used = Map.empty\<rparr>) = 0
   \<and> currentIndex (removeApiKey ''A''
        \<lparr>keys = [''A'', ''B'', ''C'', ''D''], currentIndex = 2, monthly = 500, used = Map.empty\<rparr>) = 2"
  using C3_cursor_invariant
    [of "\<lparr>keys = [''A'', ''B'', ''C''], currentIndex = 2, monthly = 500, used = Map.empty\<rparr>"
        "[RemoveCredential ''C'', AddCredential ''D'', RemoveCredential ''A'']" "''C''"]
    C3_cursor_invariant
    [of "\<lparr>keys = [''A'', ''B'', ''C'', ''D''], currentIndex = 2, monthly = 500, used = Map.empty\<rparr>"
        "[]" "''A''"]
  by (simp add: cursor_in_range_def)

text \<open>
  Claim C3 with the starting state only required to have a valid cursor or an empty
  sequence does not hold: \<open>addApiKey\<close> does not touch the cursor, so on an empty sequence
  with cursor 5 it yields a one-element sequence with cursor 5.
\<close>

theorem C3_cursor_valid_counterexample:
  "cursor_valid \<lparr>keys = [], currentIndex = 5, monthly = 500, used = Map.empty\<rparr>
   \<and> \<not> cursor_valid (ledger_run [AddCredential ''A'']
        \<lparr>keys = [], currentIndex = 5, monthly = 500, used = Map.empty\<rparr>)"
  by (simp add: cursor_valid_def addApiKey_def setUsed_fields)

section \<open>The monthly limit\<close>

lemma run_monthly: "monthly (ledger_run ops c) = monthly c"
proof (induction ops arbitrary: c)
  case Nil
  show ?case by simp
next
  case (Cons op ops)
  have "monthly (ledger_step op c) = monthly c"
    by (cases op) (simp_all add: getNext_config recordUsage_fields addApiKey_def
        setUsed_fields removeApiKey_def Let_def)
  with Cons.IH [of "ledger_step op c"] show ?case by simp
qed

text \<open>
  Claim C9. The configuration holds one monthly limit, \<open>rateLimits.monthly\<close>. \<open>getKeyUsage\<close>
  reports that value as the limit of every key, in the order of the key sequence; no
  manager call changes it, and \<open>addApiKey\<close> takes the token only.
\<close>

theorem C9_single_monthly_limit:
  "map limit (getKeyUsage c) = replicate (length (keys c)) (monthly c)
   \<and> map limit (getKeyUsage (ledger_run ops c)) =
       replicate (length (keys (ledger_run ops c))) (monthly c)
   \<and> monthly (addApiKey t c) = monthly c
   \<and> monthly (resetMonthlyUsage c) = monthly c
   \<and> map key (getKeyUsage c) = keys c"
  by (simp add: getKeyUsage_def run_monthly addApiKey_def setUsed_fields
      resetMonthlyUsage_def comp_def map_replicate_const)

theorem C9_single_monthly_limit_witness:
  "map limit (getKeyUsage (ledger_run [AddCredential ''C'', RecordUsage ''A'']
        \<lparr>keys = [''A'', ''B''], currentIndex = 0, monthly = 500,
         used = [''A'' \<mapsto> Num 7]\<rparr>)) = [500, 500, 500]"
  using C9_single_monthly_limit
    [of "\<lparr>keys = [''A'', ''B''], currentIndex = 0, monthly = 500, used = [''A'' \<mapsto> Num 7]\<rparr>"
        "[AddCredential ''C'', RecordUsage ''A'']" "''C''"]
  by (simp add: addApiKey_def setUsed_fields recordUsage_fields numeral_3_eq_3)

section \<open>Failures of the compression service\<close>

text \<open>The rethrown error determines the provider's error: class and message.\<close>

lemma rethrow_inj: "rethrow e = rethrow e' \<Longrightarrow> e = e'"
  by (cases e; cases e') simp_all

text \<open>
  Claim C7. When \<open>getNextAvailableKey\<close> returns \<open>null\<close>, \<open>compressImage\<close> throws the error
  \<open>No available API keys. All keys have reached their monthly limit.\<close> and the state is
  the one it was called in: no provider call has been made and no usage recorded.
\<close>

theorem C7_no_key_no_provider_call:
  assumes "fst (getNextAvailableKey (config s)) = None"
  shows "compressImage tp buf s = (Inl noKeysError, s)
    \<and> message noKeysError = ''No available API keys. All keys have reached their monthly limit.''
    \<and> calls (snd (compressImage tp buf s)) = calls s
    \<and> used (config (snd (compressImage tp buf s))) = used (config s)"
proof -
  from assms have "getNextAvailableKey (config s) = (None, config s)" by (rule getNext_None)
  then have "compressImage tp buf s = (Inl noKeysError, s)"
    by (simp add: compressImage_def)
  then show ?thesis by (simp add: noKeysError_def)
qed

theorem C7_no_key_no_provider_call_witness:
  "compressImage
     \<lparr>validate = (\<lambda>h k. None), toBuffer = (\<lambda>h k b. Inr b)\<rparr> [1, 2, 3]
     \<lparr>config = \<lparr>keys = [''K''], currentIndex = 0, monthly = 1, used = [''K'' \<mapsto> Num 1]\<rparr>,
      calls = [], compressions = Map.empty, nextId = 0\<rparr>
   = (Inl (Error ''No available API keys. All keys have reached their monthly limit.''),
      \<lparr>config = \<lparr>keys = [''K''], currentIndex = 0, monthly = 1, used = [''K'' \<mapsto> Num 1]\<rparr>,
       calls = [], compressions = Map.empty, nextId = 0\<rparr>)"
  using C7_no_key_no_provider_call
    [of "\<lparr>config = \<lparr>keys = [''K''], currentIndex = 0, monthly = 1, used = [''K'' \<mapsto> Num 1]\<rparr>,
           calls = [], compressions = Map.empty, nextId = 0\<rparr>"
        "\<lparr>validate = (\<lambda>h k. None), toBuffer = (\<lambda>h k b. Inr b)\<rparr>" "[1, 2, 3]"]
  by (simp add: scan_eval noKeysError_def)

text \<open>
  Claim C6. When a key has been selected and the provider throws at \<open>tinify.validate()\<close>,
  or validates and throws at \<open>toBuffer()\<close>, \<open>compressImage\<close> throws the rethrown error and
  every usage entry, that of the selected key included, is what it was before the call.
  The rethrown message is the provider's message behind a prefix naming the class of the
  provider's error (account, client, server, connection), and the provider's error can be
  read back from it.
\<close>

theorem C6_provider_failure_charges_nothing:
  assumes "getNextAvailableKey (config s) = (Some k, cfg)" and "k \<noteq> []"
    and "validate tp (calls s) k = Some e \<or>
         (validate tp (calls s) k = None \<and>
          toBuffer tp (calls s @ [Validate k]) k buf = Inl e)"
  shows "fst (compressImage tp buf s) = Inl (rethrow e)
    \<and> used (config (snd (compressImage tp buf s))) = used (config s)
    \<and> usedOrZero (config (snd (compressImage tp buf s))) k = usedOrZero (config s) k
    \<and> (\<forall>m. e = AccountError m \<longrightarrow> message (rethrow e) = ''TinyPNG account error: '' @ m)
    \<and> (\<forall>m. e = ClientError m \<longrightarrow> message (rethrow e) = ''TinyPNG client error: '' @ m)
    \<and> (\<forall>m. e = ServerError m \<longrightarrow> message (rethrow e) = ''TinyPNG server error: '' @ m)
    \<and> (\<forall>m. e = ConnectionError m \<longrightarrow>
          message (rethrow e) = ''TinyPNG connection error: '' @ m)
    \<and> (\<forall>e'. rethrow e' = rethrow e \<longrightarrow> e' = e)"
proof -
  from getNext_config [of "config s"] assms(1) have u: "used cfg = used (config s)" by simp
  from assms have res: "fst (compressImage tp buf s) = Inl (rethrow e)"
    by (auto simp: compressImage_def Let_def)
  from assms have "config (snd (compressImage tp buf s)) = cfg"
    by (auto simp: compressImage_def Let_def)
  with u have used: "used (config (snd (compressImage tp buf s))) = used (config s)"
    by simp
  then have "usedOrZero (config (snd (compressImage tp buf s))) k = usedOrZero (config s) k"
    by (rule usedOrZero_cong)
  with res used show ?thesis by (auto dest: rethrow_inj)
qed

theorem C6_provider_failure_charges_nothing_witness:
  "fst (compressImage
     \<lparr>validate = (\<lambda>h k. Some (ClientError ''Bad request'')), toBuffer = (\<lambda>h k b. Inr b)\<rparr>
     [1, 2, 3]
     \<lparr>config = \<lparr>keys = [''K''], currentIndex = 0, monthly = 500, used = [''K'' \<mapsto> Num 4]\<rparr>,
      calls = [], compressions = Map.empty, nextId = 0\<rparr>)
   = Inl (Error ''TinyPNG client error: Bad request'')
   \<and> usedOrZero (config (snd (compressImage
     \<lparr>validate = (\<lambda>h k. Some (ClientError ''Bad request'')), toBuffer = (\<lambda>h k b. Inr b)\<rparr>
     [1, 2, 3]
     \<lparr>config = \<lparr>keys = [''K''], currentIndex = 0, monthly = 500, used = [''K'' \<mapsto> Num 4]\<rparr>,
      calls = [], compressions = Map.empty, nextId = 0\<rparr>))) ''K'' = Number (Num 4)
   \<and> compressImage
     \<lparr>validate = (\<lambda>h k. None), toBuffer = (\<lambda>h k b. Inl (ServerError ''Busy''))\<rparr>
     [1, 2, 3]
     \<lparr>config = \<lparr>keys = [''K''], currentIndex = 0, monthly = 500, used = [''K'' \<mapsto> Num 4]\<rparr>,
      calls = [], compressions = Map.empty, nextId = 0\<rparr>
   = (Inl (Error ''TinyPNG server error: Busy''),
      \<lparr>config = \<lparr>keys = [''K''], currentIndex = 0, monthly = 500, used = [''K'' \<mapsto> Num 4]\<rparr>,
       calls = [Validate ''K'', ToBuffer ''K'' [1, 2, 3]], compressions = Map.empty,
       nextId = 0\<rparr>)"
  using C6_provider_failure_charges_nothing
    [of "\<lparr>config = \<lparr>keys = [''K''], currentIndex = 0, monthly = 500, used = [''K'' \<mapsto> Num 4]\<rparr>,
           calls = [], compressions = Map.empty, nextId = 0\<rparr>"
        "''K''"
        "\<lparr>keys = [''K''], currentIndex = 0, monthly = 500, used = [''K'' \<mapsto> Num 4]\<rparr>"
        "\<lparr>validate = (\<lambda>h k. None), toBuffer = (\<lambda>h k b. Inl (ServerError ''Busy''))\<rparr>"
        "ServerError ''Busy''" "[1, 2, 3]"]
    C6_provider_failure_charges_nothing
    [of "\<lparr>config = \<lparr>keys = [''K''], currentIndex = 0, monthly = 500, used = [''K'' \<mapsto> Num 4]\<rparr>,
           calls = [], compressions = Map.empty, nextId = 0\<rparr>"
        "''K''"
        "\<lparr>keys = [''K''], currentIndex = 0, monthly = 500, used = [''K'' \<mapsto> Num 4]\<rparr>"
        "\<lparr>validate = (\<lambda>h k. Some (ClientError ''Bad request'')), toBuffer = (\<lambda>h k b. Inr b)\<rparr>"
        "ClientError ''Bad request''" "[1, 2, 3]"]
  by (simp add: scan_eval compressImage_def)

section \<open>The upload batch\<close>

text \<open>
  \<open>compressImage\<close> reads and writes the configuration and the provider only: the storage
  plays no part in it.
\<close>

lemma compressImage_state:
  assumes "config s' = config s" "calls s' = calls s"
  shows "fst (compressImage tp b s') = fst (compressImage tp b s) \<and>
    config (snd (compressImage tp b s')) = config (snd (compressImage tp b s)) \<and>
    calls (snd (compressImage tp b s')) = calls (snd (compressImage tp b s))"
  using assms
  by (simp add: compressImage_def Let_def split: prod.splits option.splits sum.splits)

text \<open>
  One \<open>compressImage\<close> call is one selection, followed by one \<open>recordUsage\<close> exactly when
  it returns a result.
\<close>

lemma compressImage_ledger:
  "\<exists>ops. config (snd (compressImage tp b s)) = ledger_run ops (config s) \<and>
     (\<forall>op \<in> set ops. op = SelectCredential \<or> (\<exists>k. op = RecordUsage k)) \<and>
     recordCount ops = (case fst (compressImage tp b s) of Inl e \<Rightarrow> 0 | Inr r \<Rightarrow> 1)"
proof (cases "getNextAvailableKey (config s)")
  case (Pair r cfg)
  then have cfg: "cfg = ledger_run [SelectCredential] (config s)" by simp
  show ?thesis
  proof (cases "\<exists>res. fst (compressImage tp b s) = Inr res")
    case False
    then obtain e where e: "fst (compressImage tp b s) = Inl e"
      by (cases "fst (compressImage tp b s)") auto
    with Pair have "config (snd (compressImage tp b s)) = cfg"
      by (auto simp: compressImage_def Let_def split: option.splits sum.splits if_splits)
    with cfg e show ?thesis
      by (intro exI [of _ "[SelectCredential]"]) (simp add: recordCount_def)
  next
    case True
    then obtain res where res: "fst (compressImage tp b s) = Inr res" by blast
    with Pair obtain k where "config (snd (compressImage tp b s)) = recordUsage k cfg"
      by (auto simp: compressImage_def Let_def split: option.splits sum.splits if_splits)
    with cfg res show ?thesis
      by (intro exI [of _ "[SelectCredential, RecordUsage k]"]) (simp add: recordCount_def)
  qed
qed

lemma compressImage_calls:
  assumes "getNextAvailableKey (config s) = (Some k, cfg)" "k \<noteq> []"
  shows "take (Suc (length (calls s))) (calls (snd (compressImage tp b s))) =
    calls s @ [Validate k]"
  using assms
  by (simp add: compressImage_def Let_def split: option.splits sum.splits)

lemma config_createCompression:
  "config (snd (createCompression name sz s)) = config s \<and>
   calls (snd (createCompression name sz s)) = calls s"
  by (simp add: createCompression_def Let_def)

lemma config_updateCompression:
  "config (updateCompression cid f s) = config s \<and>
   calls (updateCompression cid f s) = calls s"
  by (simp add: updateCompression_def split: option.splits)

text \<open>One turn of the loop, for a file with a buffer and for a file without one.\<close>

lemma processFile_attempt:
  assumes "buffer file = Some b"
  shows "(r_status (fst (processFile tp file s)) = Completed \<longleftrightarrow>
            (\<exists>res. fst (compressImage tp b s) = Inr res)) \<and>
    (\<forall>err. fst (compressImage tp b s) = Inl err \<longrightarrow>
       r_status (fst (processFile tp file s)) = Failed \<and>
       r_error (fst (processFile tp file s)) = Some (message err)) \<and>
    config (snd (processFile tp file s)) = config (snd (compressImage tp b s)) \<and>
    calls (snd (processFile tp file s)) = calls (snd (compressImage tp b s))"
proof -
  obtain cid s1 where cr: "createCompression (originalname file) (f_size file) s = (cid, s1)"
    by (cases "createCompression (originalname file) (f_size file) s")
  let ?s2 = "updateCompression cid (\<lambda>r. r\<lparr>c_status := Processing\<rparr>) s1"
  from cr config_createCompression [of "originalname file" "f_size file" s]
  have "config ?s2 = config s" "calls ?s2 = calls s"
    by (simp_all add: config_updateCompression)
  from compressImage_state [OF this, of tp b]
  have same: "fst (compressImage tp b ?s2) = fst (compressImage tp b s)"
    "config (snd (compressImage tp b ?s2)) = config (snd (compressImage tp b s))"
    "calls (snd (compressImage tp b ?s2)) = calls (snd (compressImage tp b s))"
    by simp_all
  obtain res s3 where ci: "compressImage tp b ?s2 = (res, s3)"
    by (cases "compressImage tp b ?s2")
  with same have plain: "fst (compressImage tp b s) = res"
    "config (snd (compressImage tp b s)) = config s3"
    "calls (snd (compressImage tp b s)) = calls s3" by simp_all
  show ?thesis
  proof (cases res)
    case (Inl err)
    with assms cr ci have "processFile tp file s =
        (\<lparr>r_id = Some cid, r_filename = originalname file,
          r_originalSize = Some (f_size file), r_compressedSize = None,
          r_status = Failed, r_error = Some (message err)\<rparr>,
         updateCompression cid
           (\<lambda>r. r\<lparr>c_status := Failed, c_errorMessage := Some (message err)\<rparr>) s3)"
      by (simp add: processFile_def Let_def)
    with plain Inl show ?thesis by (simp add: config_updateCompression)
  next
    case (Inr result)
    with assms cr ci have "processFile tp file s =
        (\<lparr>r_id = Some cid, r_filename = originalname file,
          r_originalSize = Some (originalSize result),
          r_compressedSize = Some (compressedSize result),
          r_status = Completed, r_error = None\<rparr>,
         updateCompression cid
           (\<lambda>r. r\<lparr>c_status := Completed,
                   c_compressedSize := Some (compressedSize result)\<rparr>) s3)"
      by (simp add: processFile_def Let_def)
    with plain Inr show ?thesis by (simp add: config_updateCompression)
  qed
qed

lemma processFile_no_buffer:
  assumes "buffer file = None"
  shows "processFile tp file s =
    (\<lparr>r_id = None, r_filename = originalname file, r_originalSize = None,
      r_compressedSize = None, r_status = Failed,
      r_error = Some ''File buffer is missing''\<rparr>, s)"
  using assms by (simp add: processFile_def)

lemma processFile_name: "r_filename (fst (processFile tp file s)) = originalname file"
  by (simp add: processFile_def Let_def split: option.splits prod.splits sum.splits)

lemma processFile_status:
  "(r_status (fst (processFile tp file s)) = Completed \<and>
      r_error (fst (processFile tp file s)) = None) \<or>
   (r_status (fst (processFile tp file s)) = Failed \<and>
      r_error (fst (processFile tp file s)) \<noteq> None)"
  by (simp add: processFile_def Let_def split: option.splits prod.splits sum.splits)

lemma processFile_ledger:
  "\<exists>ops. config (snd (processFile tp file s)) = ledger_run ops (config s) \<and>
     (\<forall>op \<in> set ops. op = SelectCredential \<or> (\<exists>k. op = RecordUsage k)) \<and>
     recordCount ops = (if r_status (fst (processFile tp file s)) = Completed then 1 else 0)"
proof (cases "buffer file")
  case None
  from processFile_no_buffer [OF this, of tp s] show ?thesis
    by (intro exI [of _ "[]"]) (simp add: recordCount_def)
next
  case (Some b)
  from compressImage_ledger [of tp b s] obtain ops where
    ops: "config (snd (compressImage tp b s)) = ledger_run ops (config s)"
    "\<forall>op \<in> set ops. op = SelectCredential \<or> (\<exists>k. op = RecordUsage k)"
    "recordCount ops = (case fst (compressImage tp b s) of Inl e \<Rightarrow> 0 | Inr r \<Rightarrow> 1)"
    by blast
  from processFile_attempt [OF Some, of tp s]
  have st: "r_status (fst (processFile tp file s)) = Completed \<longleftrightarrow>
      (\<exists>res. fst (compressImage tp b s) = Inr res)"
    and cf: "config (snd (processFile tp file s)) = config (snd (compressImage tp b s))"
    by blast+
  have "recordCount ops = (if r_status (fst (processFile tp file s)) = Completed then 1 else 0)"
    using ops(3) st by (cases "fst (compressImage tp b s)") auto
  with ops(1,2) cf show ?thesis by (intro exI [of _ ops]) simp
qed

text \<open>The loop appends to the results it is given and does not read them.\<close>

lemma processFiles_acc:
  "processFiles tp files (rs, s) =
     (rs @ fst (processFiles tp files ([], s)), snd (processFiles tp files ([], s)))"
proof (induction files arbitrary: rs s)
  case Nil
  show ?case by simp
next
  case (Cons f fs)
  obtain r s' where pf: "processFile tp f s = (r, s')" by (cases "processFile tp f s")
  from Cons.IH [of "rs @ [r]" s'] Cons.IH [of "[r]" s'] pf show ?case by simp
qed

lemma processFiles_Cons:
  "processFiles tp (f # fs) ([], s) =
     (fst (processFile tp f s) # fst (processFiles tp fs ([], snd (processFile tp f s))),
      snd (processFiles tp fs ([], snd (processFile tp f s))))"
proof -
  obtain r s' where pf: "processFile tp f s = (r, s')" by (cases "processFile tp f s")
  with processFiles_acc [of tp fs "[r]" s'] show ?thesis by simp
qed

lemma processFiles_append:
  "processFiles tp (files @ rest) (rs, s) = processFiles tp rest (processFiles tp files (rs, s))"
proof (induction files arbitrary: rs s)
  case Nil
  show ?case by simp
next
  case (Cons f fs)
  obtain r s' where pf: "processFile tp f s = (r, s')" by (cases "processFile tp f s")
  with Cons.IH [of "rs @ [r]" s'] show ?case by simp
qed

lemma processFiles_report:
  "length (fst (processFiles tp files ([], s))) = length files \<and>
   map r_filename (fst (processFiles tp files ([], s))) = map originalname files"
proof (induction files arbitrary: s)
  case Nil
  show ?case by simp
next
  case (Cons f fs)
  from Cons.IH [of "snd (processFile tp f s)"] processFile_name [of tp f s]
  show ?case unfolding processFiles_Cons by simp
qed

lemma processFiles_status:
  "\<forall>r \<in> set (fst (processFiles tp files ([], s))).
      (r_status r = Completed \<and> r_error r = None) \<or>
      (r_status r = Failed \<and> r_error r \<noteq> None)"
proof (induction files arbitrary: s)
  case Nil
  show ?case by simp
next
  case (Cons f fs)
  from Cons.IH [of "snd (processFile tp f s)"] processFile_status [of tp f s]
  show ?case unfolding processFiles_Cons by simp
qed

lemma ledger_run_append: "ledger_run (xs @ ys) c = ledger_run ys (ledger_run xs c)"
  by (induction xs arbitrary: c) simp_all

lemma processFiles_ledger:
  "\<exists>ops. config (snd (processFiles tp files ([], s))) = ledger_run ops (config s) \<and>
     (\<forall>op \<in> set ops. op = SelectCredential \<or> (\<exists>k. op = RecordUsage k)) \<and>
     recordCount ops = completedCount (fst (processFiles tp files ([], s)))"
proof (induction files arbitrary: s)
  case Nil
  show ?case by (intro exI [of _ "[]"]) (simp add: recordCount_def completedCount_def)
next
  case (Cons f fs)
  let ?s' = "snd (processFile tp f s)"
  from processFile_ledger [of tp f s] obtain ops1 where
    one: "config ?s' = ledger_run ops1 (config s)"
    "\<forall>op \<in> set ops1. op = SelectCredential \<or> (\<exists>k. op = RecordUsage k)"
    "recordCount ops1 = (if r_status (fst (processFile tp f s)) = Completed then 1 else 0)"
    by blast
  from Cons.IH [of ?s'] obtain ops2 where
    two: "config (snd (processFiles tp fs ([], ?s'))) = ledger_run ops2 (config ?s')"
    "\<forall>op \<in> set ops2. op = SelectCredential \<or> (\<exists>k. op = RecordUsage k)"
    "recordCount ops2 = completedCount (fst (processFiles tp fs ([], ?s')))"
    by blast
  have run: "config (snd (processFiles tp (f # fs) ([], s))) =
      ledger_run (ops1 @ ops2) (config s)"
    unfolding processFiles_Cons using one(1) two(1) by (simp add: ledger_run_append)
  have kinds: "\<forall>op \<in> set (ops1 @ ops2). op = SelectCredential \<or> (\<exists>k. op = RecordUsage k)"
    using one(2) two(2) by auto
  have count: "recordCount (ops1 @ ops2) = completedCount (fst (processFiles tp (f # fs) ([], s)))"
    unfolding processFiles_Cons using one(3) two(3)
    by (simp add: recordCount_def completedCount_def)
  from run kinds count show ?case by blast
qed

lemmas upload_eval =
  uploadHandler_def processFile_def createCompression_def updateCompression_def
  compressImage_def completedCount_def

text \<open>
  Claim C8. For every provider, batch and state, the loop of the upload route yields one
  entry per file, in the order of the files and under their names, and every entry is
  either completed without an error or failed with an error message. Every file is
  attempted whatever happened to the files before it: the first file of a batch goes
  through the loop body in the state the batch starts in and the remaining files are
  handled in the state it leaves, so a batch followed by a second one is the second one
  run after the first. The loop body, for a file with a buffer, is one \<open>compressImage\<close>
  call on that buffer: the entry is completed exactly when the call returns a result, and
  carries the message of the error when the call throws; the configuration and the
  provider calls afterwards are those of the call, and when a key is available the
  provider is called with it. A file without a buffer is reported failed and changes
  nothing. The batch changes the configuration by selections and by exactly one
  \<open>recordUsage\<close> per completed entry. A non-empty batch is answered with these entries. In
  particular, for three files with a provider whose second \<open>toBuffer\<close> call throws a server
  error, the entries are completed, failed with the message
  \<open>TinyPNG server error: Busy\<close>, completed, the provider has been called for all three
  files, and the usage has grown by 2.
\<close>

theorem C8_batch_files_independent:
  "length (fst (processFiles tp files ([], s))) = length files
   \<and> map r_filename (fst (processFiles tp files ([], s))) = map originalname files
   \<and> (\<forall>r \<in> set (fst (processFiles tp files ([], s))).
         (r_status r = Completed \<and> r_error r = None) \<or>
         (r_status r = Failed \<and> r_error r \<noteq> None))
   \<and> processFiles tp (f # files) ([], s) =
       (fst (processFile tp f s) #
          fst (processFiles tp files ([], snd (processFile tp f s))),
        snd (processFiles tp files ([], snd (processFile tp f s))))
   \<and> processFiles tp (files @ rest) ([], s) = processFiles tp rest (processFiles tp files ([], s))
   \<and> (buffer f = Some b \<longrightarrow>
        (r_status (fst (processFile tp f s)) = Completed \<longleftrightarrow>
           (\<exists>res. fst (compressImage tp b s) = Inr res)) \<and>
        (\<forall>err. fst (compressImage tp b s) = Inl err \<longrightarrow>
           r_status (fst (processFile tp f s)) = Failed \<and>
           r_error (fst (processFile tp f s)) = Some (message err)) \<and>
        config (snd (processFile tp f s)) = config (snd (compressImage tp b s)) \<and>
        calls (snd (processFile tp f s)) = calls (snd (compressImage tp b s)))
   \<and> (buffer f = Some b \<and> getNextAvailableKey (config s) = (Some k, cfg) \<and> k \<noteq> [] \<longrightarrow>
        take (Suc (length (calls s))) (calls (snd (processFile tp f s))) =
          calls s @ [Validate k])
   \<and> (buffer f = None \<longrightarrow>
        processFile tp f s =
          (\<lparr>r_id = None, r_filename = originalname f, r_originalSize = None,
            r_compressedSize = None, r_status = Failed,
            r_error = Some ''File buffer is missing''\<rparr>, s))
   \<and> (\<exists>ops. config (snd (processFiles tp files ([], s))) = ledger_run ops (config s) \<and>
        (\<forall>op \<in> set ops. op = SelectCredential \<or> (\<exists>t. op = RecordUsage t)) \<and>
        recordCount ops = completedCount (fst (processFiles tp files ([], s))))
   \<and> (files \<noteq> [] \<longrightarrow>
        uploadHandler tp files s =
          (Json (fst (processFiles tp files ([], s))), snd (processFiles tp files ([], s))))
   \<and> (case uploadHandler
          \<lparr>validate = (\<lambda>h k. None),
           toBuffer = (\<lambda>h k b. if length h = 3 then Inl (ServerError ''Busy'') else Inr (take 1 b))\<rparr>
          [\<lparr>originalname = ''a.png'', f_size = 3, buffer = Some [1, 2, 3]\<rparr>,
           \<lparr>originalname = ''b.png'', f_size = 2, buffer = Some [4, 5]\<rparr>,
           \<lparr>originalname = ''c.png'', f_size = 4, buffer = Some [6, 7, 8, 9]\<rparr>]
          \<lparr>config = \<lparr>keys = [''A'', ''B''], currentIndex = 0, monthly = 500,
                      used = [''A'' \<mapsto> Num 0, ''B'' \<mapsto> Num 0]\<rparr>,
           calls = [], compressions = Map.empty, nextId = 0\<rparr>
        of (Json results, s') \<Rightarrow>
             map r_status results = [Completed, Failed, Completed]
             \<and> map r_error results = [None, Some ''TinyPNG server error: Busy'', None]
             \<and> map r_filename results = [''a.png'', ''b.png'', ''c.png'']
             \<and> usedOrZero (config s') ''A'' = Number (Num 2)
             \<and> usedOrZero (config s') ''B'' = Number (Num 0)
             \<and> calls s' = [Validate ''A'', ToBuffer ''A'' [1, 2, 3], Validate ''A'',
                   ToBuffer ''A'' [4, 5], Validate ''A'', ToBuffer ''A'' [6, 7, 8, 9]]
             \<and> map (\<lambda>i. map_option c_status (compressions s' i)) [0, 1, 2] =
                 [Some Completed, Some Failed, Some Completed]
         | (Status400 m, s') \<Rightarrow> False)"
proof (intro conjI)
  show "length (fst (processFiles tp files ([], s))) = length files"
    "map r_filename (fst (processFiles tp files ([], s))) = map originalname files"
    using processFiles_report [of tp files s] by simp_all
  show "\<forall>r \<in> set (fst (processFiles tp files ([], s))).
         (r_status r = Completed \<and> r_error r = None) \<or>
         (r_status r = Failed \<and> r_error r \<noteq> None)"
    by (rule processFiles_status)
  show "processFiles tp (f # files) ([], s) =
       (fst (processFile tp f s) #
          fst (processFiles tp files ([], snd (processFile tp f s))),
        snd (processFiles tp files ([], snd (processFile tp f s))))"
    by (rule processFiles_Cons)
  show "processFiles tp (files @ rest) ([], s) =
      processFiles tp rest (processFiles tp files ([], s))"
    by (rule processFiles_append)
  show "buffer f = Some b \<longrightarrow>
        (r_status (fst (processFile tp f s)) = Completed \<longleftrightarrow>
           (\<exists>res. fst (compressImage tp b s) = Inr res)) \<and>
        (\<forall>err. fst (compressImage tp b s) = Inl err \<longrightarrow>
           r_status (fst (processFile tp f s)) = Failed \<and>
           r_error (fst (processFile tp f s)) = Some (message err)) \<and>
        config (snd (processFile tp f s)) = config (snd (compressImage tp b s)) \<and>
        calls (snd (processFile tp f s)) = calls (snd (compressImage tp b s))"
    using processFile_attempt [of f b tp s] by blast
  show "buffer f = Some b \<and> getNextAvailableKey (config s) = (Some k, cfg) \<and> k \<noteq> [] \<longrightarrow>
        take (Suc (length (calls s))) (calls (snd (processFile tp f s))) =
          calls s @ [Validate k]"
  proof
    assume a: "buffer f = Some b \<and> getNextAvailableKey (config s) = (Some k, cfg) \<and> k \<noteq> []"
    with processFile_attempt [of f b tp s]
    have "calls (snd (processFile tp f s)) = calls (snd (compressImage tp b s))" by blast
    with a compressImage_calls [of s k cfg tp b]
    show "take (Suc (length (calls s))) (calls (snd (processFile tp f s))) =
          calls s @ [Validate k]" by simp
  qed
  show "buffer f = None \<longrightarrow>
        processFile tp f s =
          (\<lparr>r_id = None, r_filename = originalname f, r_originalSize = None,
            r_compressedSize = None, r_status = Failed,
            r_error = Some ''File buffer is missing''\<rparr>, s)"
    using processFile_no_buffer [of f tp s] by blast
  show "\<exists>ops. config (snd (processFiles tp files ([], s))) = ledger_run ops (config s) \<and>
        (\<forall>op \<in> set ops. op = SelectCredential \<or> (\<exists>t. op = RecordUsage t)) \<and>
        recordCount ops = completedCount (fst (processFiles tp files ([], s)))"
    by (rule processFiles_ledger)
  show "files \<noteq> [] \<longrightarrow>
        uploadHandler tp files s =
          (Json (fst (processFiles tp files ([], s))), snd (processFiles tp files ([], s)))"
    by (simp add: uploadHandler_def split: prod.splits)
  show "case uploadHandler
          \<lparr>validate = (\<lambda>h k. None),
           toBuffer = (\<lambda>h k b. if length h = 3 then Inl (ServerError ''Busy'') else Inr (take 1 b))\<rparr>
          [\<lparr>originalname = ''a.png'', f_size = 3, buffer = Some [1, 2, 3]\<rparr>,
           \<lparr>originalname = ''b.png'', f_size = 2, buffer = Some [4, 5]\<rparr>,
           \<lparr>originalname = ''c.png'', f_size = 4, buffer = Some [6, 7, 8, 9]\<rparr>]
          \<lparr>config = \<lparr>keys = [''A'', ''B''], currentIndex = 0, monthly = 500,
                      used = [''A'' \<mapsto> Num 0, ''B'' \<mapsto> Num 0]\<rparr>,
           calls = [], compressions = Map.empty, nextId = 0\<rparr>
        of (Json results, s') \<Rightarrow>
             map r_status results = [Completed, Failed, Completed]
             \<and> map r_error results = [None, Some ''TinyPNG server error: Busy'', None]
             \<and> map r_filename results = [''a.png'', ''b.png'', ''c.png'']
             \<and> usedOrZero (config s') ''A'' = Number (Num 2)
             \<and> usedOrZero (config s') ''B'' = Number (Num 0)
             \<and> calls s' = [Validate ''A'', ToBuffer ''A'' [1, 2, 3], Validate ''A'',
                   ToBuffer ''A'' [4, 5], Validate ''A'', ToBuffer ''A'' [6, 7, 8, 9]]
             \<and> map (\<lambda>i. map_option c_status (compressions s' i)) [0, 1, 2] =
                 [Some Completed, Some Failed, Some Completed]
         | (Status400 m, s') \<Rightarrow> False"
    by (simp add: upload_eval scan_eval record_eval js_succ_def)
qed

theorem C8_batch_files_independent_witness:
  "processFile
     \<lparr>validate = (\<lambda>h k. None), toBuffer = (\<lambda>h k b. Inr (take 1 b))\<rparr>
     \<lparr>originalname = ''a.png'', f_size = 3, buffer = None\<rparr>
     \<lparr>config = \<lparr>keys = [''A''], currentIndex = 0, monthly = 500, used = [''A'' \<mapsto> Num 0]\<rparr>,
      calls = [], compressions = Map.empty, nextId = 0\<rparr>
   = (\<lparr>r_id = None, r_filename = ''a.png'', r_originalSize = None, r_compressedSize = None,
       r_status = Failed, r_error = Some ''File buffer is missing''\<rparr>,
      \<lparr>config = \<lparr>keys = [''A''], currentIndex = 0, monthly = 500, used = [''A'' \<mapsto> Num 0]\<rparr>,
       calls = [], compressions = Map.empty, nextId = 0\<rparr>)
   \<and> processFiles
     \<lparr>validate = (\<lambda>h k. None), toBuffer = (\<lambda>h k b. Inr (take 1 b))\<rparr>
     [\<lparr>originalname = ''a.png'', f_size = 3, buffer = None\<rparr>,
      \<lparr>originalname = ''b.png'', f_size = 2, buffer = Some [4, 5]\<rparr>]
     ([], \<lparr>config = \<lparr>keys = [''A''], currentIndex = 0, monthly = 500,
                       used = [''A'' \<mapsto> Num 0]\<rparr>,
           calls = [], compressions = Map.empty, nextId = 0\<rparr>)
   = ([\<lparr>r_id = None, r_filename = ''a.png'', r_originalSize = None, r_compressedSize = None,
        r_status = Failed, r_error = Some ''File buffer is missing''\<rparr>,
       \<lparr>r_id = Some 0, r_filename = ''b.png'', r_originalSize = Some 2,
        r_compressedSize = Some 1, r_status = Completed, r_error = None\<rparr>],
      \<lparr>config = \<lparr>keys = [''A''], currentIndex = 0, monthly = 500, used = [''A'' \<mapsto> Num 1]\<rparr>,
       calls = [Validate ''A'', ToBuffer ''A'' [4, 5]],
       compressions = [0 \<mapsto> \<lparr>c_filename = ''b.png'', c_originalSize = 2,
         c_compressedSize = Some 1, c_status = Completed, c_errorMessage = None\<rparr>],
       nextId = 1\<rparr>)"
proof -
  let ?tp = "\<lparr>validate = (\<lambda>h k. None), toBuffer = (\<lambda>h k b. Inr (take 1 b))\<rparr>"
  let ?a = "\<lparr>originalname = ''a.png'', f_size = 3, buffer = None\<rparr>"
  let ?b = "\<lparr>originalname = ''b.png'', f_size = 2, buffer = Some [4, 5]\<rparr>"
  let ?s = "\<lparr>config = \<lparr>keys = [''A''], currentIndex = 0, monthly = 500,
                       used = [''A'' \<mapsto> Num 0]\<rparr>,
           calls = [], compressions = Map.empty, nextId = 0\<rparr>"
  note inst = C8_batch_files_independent
    [where tp = ?tp and files = "[?b]" and s = ?s and f = ?a and rest = "[]"]
  note loop = inst [THEN conjunct2, THEN conjunct2, THEN conjunct2, THEN conjunct1]
  note missing = inst [THEN conjunct2, THEN conjunct2, THEN conjunct2, THEN conjunct2,
      THEN conjunct2, THEN conjunct2, THEN conjunct2, THEN conjunct1]
  have "buffer ?a = None" by simp
  with missing have first: "processFile ?tp ?a ?s =
      (\<lparr>r_id = None, r_filename = originalname ?a, r_originalSize = None,
        r_compressedSize = None, r_status = Failed,
        r_error = Some ''File buffer is missing''\<rparr>, ?s)" by (rule mp)
  have second: "processFiles ?tp [?b] ([], ?s) =
      ([\<lparr>r_id = Some 0, r_filename = ''b.png'', r_originalSize = Some 2,
        r_compressedSize = Some 1, r_status = Completed, r_error = None\<rparr>],
      \<lparr>config = \<lparr>keys = [''A''], currentIndex = 0, monthly = 500, used = [''A'' \<mapsto> Num 1]\<rparr>,
       calls = [Validate ''A'', ToBuffer ''A'' [4, 5]],
       compressions = [0 \<mapsto> \<lparr>c_filename = ''b.png'', c_originalSize = 2,
         c_compressedSize = Some 1, c_status = Completed, c_errorMessage = None\<rparr>],
       nextId = 1\<rparr>)"
    by (simp add: upload_eval scan_eval record_eval js_succ_def)
  from loop have "processFiles ?tp [?a, ?b] ([], ?s) =
      (fst (processFile ?tp ?a ?s) # fst (processFiles ?tp [?b] ([], snd (processFile ?tp ?a ?s))),
       snd (processFiles ?tp [?b] ([], snd (processFile ?tp ?a ?s))))" .
  with first second have both: "processFiles ?tp [?a, ?b] ([], ?s) =
      ([\<lparr>r_id = None, r_filename = ''a.png'', r_originalSize = None, r_compressedSize = None,
        r_status = Failed, r_error = Some ''File buffer is missing''\<rparr>,
       \<lparr>r_id = Some 0, r_filename = ''b.png'', r_originalSize = Some 2,
        r_compressedSize = Some 1, r_status = Completed, r_error = None\<rparr>],
      \<lparr>config = \<lparr>keys = [''A''], currentIndex = 0, monthly = 500, used = [''A'' \<mapsto> Num 1]\<rparr>,
       calls = [Validate ''A'', ToBuffer ''A'' [4, 5]],
       compressions = [0 \<mapsto> \<lparr>c_filename = ''b.png'', c_originalSize = 2,
         c_compressedSize = Some 1, c_status = Completed, c_errorMessage = None\<rparr>],
       nextId = 1\<rparr>)"
    by (simp only: fst_conv snd_conv upload_file.simps)
  from first both show ?thesis by (simp only: upload_file.simps simp_thms)
qed

end
